theory Spec2Isabelle
  imports Main
begin

section \<open>The libraries the cloner calls\<close>

text \<open>
  clone-notion.js is a single script built on a handful of libraries: the WHATWG
  \<open>URL\<close> class, \<open>slugify\<close>, \<open>node-html-parser\<close>, \<open>RegExp\<close>, \<open>Buffer\<close>, and
  the browser, HTTP client and file system it drives. None of them is code of the
  repository. The libraries are a parameter \<open>L\<close> of every function below, the outside world
  is a parameter \<open>E\<close>, and the general theorems hold for every library and every world.
  Strings are lists of 8-bit characters; one \<open>char\<close> stands for one code unit.
\<close>

text \<open>
  A \<open>URL\<close> object, as far as the script reads it: \<open>x.host\<close>, \<open>x.pathname\<close>, and
  \<open>x.toString()\<close>, which is the serialisation up to the fragment followed by
  \<open>#fragment\<close> when the URL has one. \<open>x.hash = ''\<close> removes the fragment.
\<close>

record url =
  u_host :: string
  u_pathname :: string
  u_base :: string
  u_fragment :: "string option"

definition url_toString :: "url \<Rightarrow> string" where
  "url_toString x =
     u_base x @ (case u_fragment x of None \<Rightarrow> [] | Some f \<Rightarrow> CHR ''#'' # f)"

definition clear_hash :: "url \<Rightarrow> url" where
  "clear_hash x = x\<lparr>u_fragment := None\<rparr>"

text \<open>
  The parsed page, as far as the script reads and changes it: the text of the
  \<open>title\<close> element, whether \<open>head\<close> and \<open>body\<close> exist, the \<open>a\<close> and \<open>img\<close>
  elements in document order with the attributes the script touches, whether the style
  and script bundle has been appended, and the rest of the markup.
\<close>

record anchor =
  a_href :: "string option"
  a_text :: string
  a_target :: "string option"
  a_rel :: "string option"

record img =
  i_src :: "string option"

record dom =
  d_title :: "string option"
  d_head :: bool
  d_body :: bool
  d_anchors :: "anchor list"
  d_imgs :: "img list"
  d_bundle :: bool
  d_rest :: string

text \<open>
  \<open>URL1 L u\<close> is \<open>new URL(u)\<close> and \<open>URL2 L href base\<close> is \<open>new URL(href, base)\<close>;
  \<open>None\<close> is the \<open>TypeError\<close> they throw. \<open>slugify L t\<close> is
  \<open>slugify(t, {lower: true, strict: true})\<close>. \<open>RegExp_g L p\<close> is \<open>new RegExp(p, 'g')\<close>,
  \<open>None\<close> when the pattern is a syntax error, and otherwise the function that maps a
  replacement and a subject to \<open>subject.replace(pattern, replacement)\<close>.
  \<open>base64 L u\<close> is \<open>Buffer.from(u).toString('base64')\<close>, \<open>trim L\<close> is
  \<open>String.prototype.trim\<close> and \<open>toString L\<close> is the parser's \<open>root.toString()\<close>.
\<close>

record lib =
  URL1 :: "string \<Rightarrow> url option"
  URL2 :: "string \<Rightarrow> url \<Rightarrow> url option"
  slugify :: "string \<Rightarrow> string"
  trim :: "string \<Rightarrow> string"
  base64 :: "string \<Rightarrow> string"
  RegExp_g :: "string \<Rightarrow> (string \<Rightarrow> string \<Rightarrow> string) option"
  toString :: "dom \<Rightarrow> string"

section \<open>Helpers of the script\<close>

subsection \<open>normalizeUrl\<close>

definition normalizeUrl :: "lib \<Rightarrow> string \<Rightarrow> string" where
  "normalizeUrl L u =
     (case URL1 L u of
        None \<Rightarrow> u
      | Some x \<Rightarrow> url_toString (clear_hash x))"

subsection \<open>isNotionPage\<close>

definition is_hex :: "char \<Rightarrow> bool" where
  "is_hex c =
     (let n = (of_char c :: nat)
      in (48 \<le> n \<and> n \<le> 57) \<or> (97 \<le> n \<and> n \<le> 102) \<or> (65 \<le> n \<and> n \<le> 70))"

text \<open>
  \<open>/[0-9a-f]{32}/i.test(s)\<close>: \<open>hex_run n k s\<close> scans \<open>s\<close> with \<open>k\<close> hexadecimal
  characters seen in a row, and answers whether a run of \<open>n\<close> is reached.
\<close>

fun hex_run :: "nat \<Rightarrow> nat \<Rightarrow> string \<Rightarrow> bool" where
  "hex_run n k [] = (n \<le> k)"
| "hex_run n k (c # cs) =
     (if n \<le> k then True
      else if is_hex c then hex_run n (Suc k) cs
      else hex_run n 0 cs)"

definition remove_hyphens :: "string \<Rightarrow> string" where
  "remove_hyphens s = filter (\<lambda>c. c \<noteq> CHR ''-'') s"

definition isNotionPage :: "lib \<Rightarrow> string \<Rightarrow> bool" where
  "isNotionPage L u =
     (case URL1 L u of
        None \<Rightarrow> False
      | Some x \<Rightarrow> hex_run 32 0 (remove_hyphens (u_pathname x)))"

subsection \<open>uniqueSlug\<close>

record entry =
  e_title :: string
  e_filename :: string

type_synonym visited_map = "(string \<times> entry) list"

text \<open>
  \<open>visited\<close> is a JavaScript \<open>Map\<close>: an association list in insertion order, which is
  the order the fix pass iterates it in.
\<close>

definition map_has :: "visited_map \<Rightarrow> string \<Rightarrow> bool" where
  "map_has m k = (map_of m k \<noteq> None)"

definition map_set :: "visited_map \<Rightarrow> string \<Rightarrow> entry \<Rightarrow> visited_map" where
  "map_set m k v =
     (if map_has m k then map (\<lambda>(k', v'). if k' = k then (k', v) else (k', v')) m
      else m @ [(k, v)])"

definition BACKSLASH :: char where
  "BACKSLASH = CHR 0x5C"

definition line_terminator :: "char \<Rightarrow> bool" where
  "line_terminator c = (c = CHR 0x0A \<or> c = CHR 0x0D)"

text \<open>
  \<open>v.filename.replace(/\\.html$/, '')\<close>. The source spells the pattern with two
  backslashes, so it is: a backslash, any character but a line terminator, then
  \<open>html\<close> at the end of the string.
\<close>

definition strip_html :: "string \<Rightarrow> string" where
  "strip_html s =
     (let n = length s
      in if 6 \<le> n \<and> s ! (n - 6) = BACKSLASH \<and> \<not> line_terminator (s ! (n - 5))
            \<and> drop (n - 4) s = ''html''
         then take (n - 6) s
         else s)"

definition digit_char :: "nat \<Rightarrow> char" where
  "digit_char d =
     (if d = 0 then CHR ''0'' else if d = 1 then CHR ''1'' else if d = 2 then CHR ''2''
      else if d = 3 then CHR ''3'' else if d = 4 then CHR ''4'' else if d = 5 then CHR ''5''
      else if d = 6 then CHR ''6'' else if d = 7 then CHR ''7'' else if d = 8 then CHR ''8''
      else CHR ''9'')"

function decimal :: "nat \<Rightarrow> string" where
  "decimal n = (if n < 10 then [digit_char n] else decimal (n div 10) @ [digit_char (n mod 10)])"
  by pat_completeness auto
termination
  by (relation "measure id") auto

definition numbered :: "string \<Rightarrow> nat \<Rightarrow> string" where
  "numbered base i = base @ ''-'' @ decimal i"

declare decimal.simps [simp del]

text \<open>
  The \<open>while (used.has(slug))\<close> loop of \<open>uniqueSlug\<close>, with \<open>i\<close> the counter after
  the last \<open>i++\<close>. Its termination is proved below (\<open>uniqueSlug_loop_terminates\<close>
  is the fact the \<^theory_text>\<open>termination\<close> proof rests on).
\<close>

definition loop_measure :: "string list \<times> string \<times> nat \<times> string \<Rightarrow> nat" where
  "loop_measure = (\<lambda>(used, base, i, slug).
     (if slug \<in> set used then 1 else 0) + card {j. i \<le> j \<and> numbered base j \<in> set used})"

lemma digit_char_inj: "a < 10 \<Longrightarrow> b < 10 \<Longrightarrow> digit_char a = digit_char b \<Longrightarrow> a = b"
  unfolding digit_char_def by (simp split: if_splits) arith

lemma decimal_nonempty: "decimal n \<noteq> []"
  by (subst decimal.simps) simp

lemma decimal_inj: "decimal a = decimal b \<Longrightarrow> a = b"
proof (induction a arbitrary: b rule: decimal.induct)
  case (1 n)
  show ?case
  proof (cases "n < 10")
    case small: True
    show ?thesis
    proof (cases "b < 10")
      case True
      with small "1.prems" show ?thesis
        by (simp add: decimal.simps [of n] decimal.simps [of b] digit_char_inj)
    next
      case False
      with small "1.prems" show ?thesis
        using decimal_nonempty [of "b div 10"]
        by (simp add: decimal.simps [of n] decimal.simps [of b])
    qed
  next
    case big: False
    show ?thesis
    proof (cases "b < 10")
      case True
      with big "1.prems" show ?thesis
        using decimal_nonempty [of "n div 10"]
        by (simp add: decimal.simps [of n] decimal.simps [of b])
    next
      case False
      with big "1.prems" have eq: "decimal (n div 10) = decimal (b div 10)"
        and d: "digit_char (n mod 10) = digit_char (b mod 10)"
        by (simp_all add: decimal.simps [of n] decimal.simps [of b])
      from "1.IH" [OF big eq] have "n div 10 = b div 10" .
      moreover from d have "n mod 10 = b mod 10"
        by (intro digit_char_inj) simp_all
      ultimately show ?thesis
        by (metis div_mult_mod_eq)
    qed
  qed
qed

lemma numbered_inj: "inj (numbered base)"
  by (rule injI) (simp add: numbered_def decimal_inj)

lemma numbered_finite: "finite {j. i \<le> j \<and> numbered base j \<in> set used}"
proof -
  have "finite (numbered base -` set used)"
    by (rule finite_vimageI [OF _ numbered_inj]) simp
  moreover have "{j. i \<le> j \<and> numbered base j \<in> set used} \<subseteq> numbered base -` set used"
    by auto
  ultimately show ?thesis
    by (rule rev_finite_subset)
qed

lemma uniqueSlug_loop_terminates:
  assumes "slug \<in> set used"
  shows "loop_measure (used, base, Suc i, numbered base i) < loop_measure (used, base, i, slug)"
proof -
  let ?A = "{j. i \<le> j \<and> numbered base j \<in> set used}"
  let ?B = "{j. Suc i \<le> j \<and> numbered base j \<in> set used}"
  have fin: "finite ?B" by (rule numbered_finite)
  show ?thesis
  proof (cases "numbered base i \<in> set used")
    case True
    then have "?A = insert i ?B" by (auto simp: le_Suc_eq)
    moreover have "i \<notin> ?B" by simp
    ultimately have "card ?A = Suc (card ?B)" using fin by simp
    with True assms show ?thesis by (simp add: loop_measure_def)
  next
    case False
    then have "?A = ?B"
      by (auto simp: le_Suc_eq) (metis le_antisym not_less_eq_eq)
    with False assms show ?thesis by (simp add: loop_measure_def)
  qed
qed

function uniqueSlug_loop :: "string list \<Rightarrow> string \<Rightarrow> nat \<Rightarrow> string \<Rightarrow> string" where
  "uniqueSlug_loop used base i slug =
     (if slug \<in> set used then uniqueSlug_loop used base (Suc i) (numbered base i) else slug)"
  by pat_completeness auto
termination
  by (relation "measure loop_measure") (simp_all add: uniqueSlug_loop_terminates)

declare uniqueSlug_loop.simps [simp del]

definition or_page :: "string \<Rightarrow> string" where
  "or_page s = (if s = [] then ''page'' else s)"

definition uniqueSlug :: "lib \<Rightarrow> string \<Rightarrow> visited_map \<Rightarrow> string" where
  "uniqueSlug L title m =
     (let base = take 60 (or_page (slugify L title));
          used = map (\<lambda>(k, v). strip_html (e_filename v)) m
      in uniqueSlug_loop used base 2 base)"

subsection \<open>assetFilename\<close>

definition lower_char :: "char \<Rightarrow> char" where
  "lower_char c =
     (case map_of (zip ''ABCDEFGHIJKLMNOPQRSTUVWXYZ'' ''abcdefghijklmnopqrstuvwxyz'') c of
        None \<Rightarrow> c
      | Some l \<Rightarrow> l)"

definition is_alnum :: "char \<Rightarrow> bool" where
  "is_alnum c =
     (let n = (of_char c :: nat)
      in (48 \<le> n \<and> n \<le> 57) \<or> (97 \<le> n \<and> n \<le> 122) \<or> (65 \<le> n \<and> n \<le> 90))"

text \<open>
  \<open>s.match(/\\.(png|jpe?g|gif|svg|webp)$/i)?.[0]\<close>, again with the two backslashes of
  the source: a backslash, any character but a line terminator, and one of the
  extensions at the end of the string. The match, when there is one, is the last five or
  six characters.
\<close>

definition ext_tail :: "nat \<Rightarrow> string list \<Rightarrow> string \<Rightarrow> string option" where
  "ext_tail k exts s =
     (let n = length s
      in if k + 2 \<le> n \<and> s ! (n - (k + 2)) = BACKSLASH
            \<and> \<not> line_terminator (s ! (n - (k + 1)))
            \<and> map lower_char (drop (n - k) s) \<in> set exts
         then Some (drop (n - (k + 2)) s)
         else None)"

definition match_ext :: "string \<Rightarrow> string option" where
  "match_ext s =
     (case ext_tail 4 [''jpeg'', ''webp''] s of
        Some m \<Rightarrow> Some m
      | None \<Rightarrow> ext_tail 3 [''png'', ''jpg'', ''gif'', ''svg''] s)"

definition before_char :: "char \<Rightarrow> string \<Rightarrow> string" where
  "before_char c s = takeWhile (\<lambda>d. d \<noteq> c) s"

definition assetFilename :: "lib \<Rightarrow> string \<Rightarrow> string" where
  "assetFilename L u =
     (let ident = take 24 (filter is_alnum (base64 L u));
          ext = (case match_ext (before_char (CHR ''#'') (before_char (CHR ''?'') u)) of
                   Some m \<Rightarrow> m
                 | None \<Rightarrow> ''.bin'')
      in ident @ ext)"

subsection \<open>escapeRegExp\<close>

definition regexp_special :: "char \<Rightarrow> bool" where
  "regexp_special c = (c \<in> set ''.*+?^${}()|['' \<or> c = BACKSLASH)"

text \<open>
  \<open>s.replace(/[.*+?^${}()|[\\]\\\\]/g, '\\\\$&')\<close>. As the source spells it, the
  character class ends at the first \<open>]\<close>, so the pattern is: one special character, two
  backslashes and a \<open>]\<close>; each match is replaced by two backslashes and the match.
\<close>

fun escapeRegExp :: "string \<Rightarrow> string" where
  "escapeRegExp (c # b1 # b2 # r # rest) =
     (if regexp_special c \<and> b1 = BACKSLASH \<and> b2 = BACKSLASH \<and> r = CHR '']''
      then [BACKSLASH, BACKSLASH, c, b1, b2, r] @ escapeRegExp rest
      else c # escapeRegExp (b1 # b2 # r # rest))"
| "escapeRegExp s = s"

section \<open>The crawl\<close>

subsection \<open>The outside world and the state of a run\<close>

text \<open>
  What a visit of the browser gives: \<open>NavError\<close> when \<open>page.goto\<close>, \<open>page.evaluate\<close>,
  \<open>page.content\<close> or \<open>parse\<close> throws, \<open>BadStatus\<close> when there is no response or
  \<open>resp.ok()\<close> is false, and otherwise the parsed page. The world may answer differently
  each time: \<open>goto E n url\<close> is the answer to the visit number \<open>n\<close> of the run,
  \<open>axios_get E k u\<close> the answer to the download request number \<open>k\<close> (\<open>None\<close> when
  the request or the write of the asset throws), \<open>arrival E k\<close> is the moment at
  which that answer arrives, and \<open>write_ok E n f\<close> says whether
  \<open>fs.writeFileSync\<close> of the page file \<open>f\<close> succeeds in visit \<open>n\<close>.
\<close>

datatype nav = NavError | BadStatus | Rendered dom

record env =
  goto :: "nat \<Rightarrow> string \<Rightarrow> nav"
  axios_get :: "nat \<Rightarrow> string \<Rightarrow> string option"
  arrival :: "nat \<Rightarrow> nat"
  write_ok :: "nat \<Rightarrow> string \<Rightarrow> bool"

text \<open>
  The state: the script's \<open>queue\<close> and \<open>visited\<close>, the files of \<open>site/\<close> and
  \<open>site/assets/\<close> by name, and two logs the script does not keep but the claims speak
  of: the URLs handed to \<open>page.goto\<close> and the URLs handed to \<open>axios.get\<close>, in order.
\<close>

record crawl =
  queue :: "string list"
  visited :: visited_map
  site :: "string \<rightharpoonup> string"
  assets :: "string \<rightharpoonup> string"
  fetched :: "string list"
  downloads :: "string list"

definition MAX_PAGES :: nat where
  "MAX_PAGES = 150"

subsection \<open>Title and file name of a page\<close>

definition NOTION_SUFFIX :: string where
  "NOTION_SUFFIX = '' '' @ [CHR 0xE2, CHR 0x80, CHR 0x93] @ '' Notion''"

definition drop_suffix :: "string \<Rightarrow> string \<Rightarrow> string" where
  "drop_suffix sfx s =
     (let n = length s - length sfx
      in if length sfx \<le> length s \<and> drop n s = sfx then take n s else s)"

definition page_title :: "lib \<Rightarrow> dom \<Rightarrow> string" where
  "page_title L d =
     (let title = or_page (case d_title d of None \<Rightarrow> [] | Some t \<Rightarrow> trim L t)
      in or_page (trim L (drop_suffix NOTION_SUFFIX title)))"

subsection \<open>The anchors of a page\<close>

text \<open>
  The test of lines 125 and 126: \<open>new URL(abs).host === host && isNotionPage(abs)\<close>.
  \<open>None\<close> is the exception of \<open>new URL(abs)\<close>, which the \<open>catch\<close> of the anchor
  swallows.
\<close>

definition in_scope :: "lib \<Rightarrow> string \<Rightarrow> string \<Rightarrow> bool option" where
  "in_scope L host absu =
     (case URL1 L absu of
        None \<Rightarrow> None
      | Some x \<Rightarrow> Some (u_host x = host \<and> isNotionPage L absu))"

definition link_guess :: "lib \<Rightarrow> string \<Rightarrow> string" where
  "link_guess L text =
     (let guess = or_page (take 60 (slugify L (or_page (trim L (or_page text)))))
      in or_page guess @ ''.html'')"

definition mapped_name :: "lib \<Rightarrow> visited_map \<Rightarrow> string \<Rightarrow> anchor \<Rightarrow> string" where
  "mapped_name L vis nh a =
     (case map_of vis nh of
        None \<Rightarrow> link_guess L (a_text a)
      | Some e \<Rightarrow> if e_filename e = [] then link_guess L (a_text a) else e_filename e)"

definition rewrite_anchor ::
  "lib \<Rightarrow> string \<Rightarrow> visited_map \<Rightarrow> url \<Rightarrow> anchor \<Rightarrow> string list \<Rightarrow> anchor \<times> string list" where
  "rewrite_anchor L host vis urlObj a q =
     (case a_href a of
        None \<Rightarrow> (a, q)
      | Some href \<Rightarrow>
          if href = [] then (a, q)
          else
            (case URL2 L href urlObj of
               None \<Rightarrow> (a, q)
             | Some r \<Rightarrow>
                 (let absu = url_toString r;
                      nh = normalizeUrl L absu
                  in case in_scope L host absu of
                       None \<Rightarrow> (a, q)
                     | Some True \<Rightarrow>
                         (a\<lparr>a_href := Some (mapped_name L vis nh a)\<rparr>,
                          if \<not> map_has vis nh \<and> nh \<notin> set q then q @ [nh] else q)
                     | Some False \<Rightarrow>
                         (a\<lparr>a_target := Some ''_blank'',
                            a_rel := Some ''noopener noreferrer''\<rparr>, q))))"

fun rewrite_anchors ::
  "lib \<Rightarrow> string \<Rightarrow> visited_map \<Rightarrow> url \<Rightarrow> anchor list \<Rightarrow> string list
     \<Rightarrow> anchor list \<times> string list" where
  "rewrite_anchors L host vis urlObj [] q = ([], q)"
| "rewrite_anchors L host vis urlObj (a # as) q =
     (let (a', q') = rewrite_anchor L host vis urlObj a q;
          (as', q'') = rewrite_anchors L host vis urlObj as q'
      in (a' # as', q''))"

definition injectMinimalBundle :: "dom \<Rightarrow> dom" where
  "injectMinimalBundle d = (if d_head d \<and> d_body d then d\<lparr>d_bundle := True\<rparr> else d)"

subsection \<open>The images of a page\<close>

text \<open>
  \<open>Promise.all(images.map(async (src) => ...))\<close> calls every callback in turn, and each
  runs up to its first \<open>await\<close>: it resolves the source, derives the file name and asks
  \<open>fs.existsSync\<close>. A callback whose file exists rewrites its \<open>img\<close> elements at once;
  the others have started \<open>axios.get\<close> and are pending. No file is written before every
  callback has asked, so all of them see the asset directory as it was. The pending
  callbacks then resume one by one, each when its answer arrives: that order is the
  world's, not the script's. Two answers that arrive at the same moment are taken in the
  order of their requests.
\<close>

record pending =
  p_index :: nat
  p_src :: string
  p_url :: string
  p_name :: string

definition uniq :: "string list \<Rightarrow> string list" where
  "uniq xs = rev (remdups (rev xs))"

definition image_sources :: "dom \<Rightarrow> string list" where
  "image_sources d = uniq (filter (\<lambda>src. src \<noteq> []) (List.map_filter i_src (d_imgs d)))"

definition rewrite_src :: "string \<Rightarrow> string \<Rightarrow> img list \<Rightarrow> img list" where
  "rewrite_src src name imgs =
     map (\<lambda>i. if i_src i = Some src then i\<lparr>i_src := Some (''assets/'' @ name)\<rparr> else i) imgs"

fun start_images ::
  "lib \<Rightarrow> url \<Rightarrow> (string \<rightharpoonup> string) \<Rightarrow> string list \<Rightarrow> img list \<Rightarrow> nat
     \<Rightarrow> img list \<times> pending list" where
  "start_images L urlObj fs [] imgs k = (imgs, [])"
| "start_images L urlObj fs (src # srcs) imgs k =
     (case URL2 L src urlObj of
        None \<Rightarrow> start_images L urlObj fs srcs imgs k
      | Some r \<Rightarrow>
          (let absu = url_toString r;
               assetName = assetFilename L absu
           in if fs assetName \<noteq> None
              then start_images L urlObj fs srcs (rewrite_src src assetName imgs) k
              else
                (let (imgs', ps) = start_images L urlObj fs srcs imgs (Suc k)
                 in (imgs',
                     \<lparr>p_index = k, p_src = src, p_url = absu, p_name = assetName\<rparr> # ps))))"

fun finish_images ::
  "env \<Rightarrow> pending list \<Rightarrow> img list \<Rightarrow> (string \<rightharpoonup> string)
     \<Rightarrow> img list \<times> (string \<rightharpoonup> string)" where
  "finish_images E [] imgs fs = (imgs, fs)"
| "finish_images E (p # ps) imgs fs =
     (case axios_get E (p_index p) (p_url p) of
        None \<Rightarrow> finish_images E ps imgs fs
      | Some data \<Rightarrow>
          finish_images E ps (rewrite_src (p_src p) (p_name p) imgs) (fs(p_name p \<mapsto> data)))"

definition arrival_order :: "env \<Rightarrow> pending list \<Rightarrow> pending list" where
  "arrival_order E ps = sort_key (\<lambda>p. arrival E (p_index p)) ps"

definition process_images ::
  "lib \<Rightarrow> env \<Rightarrow> url \<Rightarrow> string list \<Rightarrow> img list \<Rightarrow> (string \<rightharpoonup> string) \<Rightarrow> string list
     \<Rightarrow> img list \<times> (string \<rightharpoonup> string) \<times> string list" where
  "process_images L E urlObj srcs imgs fs dl =
     (let (imgs1, ps) = start_images L urlObj fs srcs imgs (length dl);
          (imgs2, fs2) = finish_images E (arrival_order E ps) imgs1 fs
      in (imgs2, fs2, dl @ map p_url ps))"

text \<open>
  The downloads a page asks for: one for each of its image sources that resolves and
  whose file is not in the asset directory when the page checks, in the order of the
  sources.
\<close>

definition requested :: "lib \<Rightarrow> url \<Rightarrow> (string \<rightharpoonup> string) \<Rightarrow> string list \<Rightarrow> string list" where
  "requested L urlObj fs srcs =
     List.map_filter
       (\<lambda>src. case URL2 L src urlObj of
                 None \<Rightarrow> None
               | Some r \<Rightarrow>
                   if fs (assetFilename L (url_toString r)) = None then Some (url_toString r)
                   else None)
       srcs"

text \<open>
  The file names a page derives: the one of each source that resolves. An image is
  \<^emph>\<open>kept or local\<close> when it still has the source it had, or points at one of the given
  files of the asset directory.
\<close>

definition local_names :: "lib \<Rightarrow> url \<Rightarrow> string list \<Rightarrow> string list" where
  "local_names L urlObj srcs =
     List.map_filter
       (\<lambda>src. case URL2 L src urlObj of
                 None \<Rightarrow> None
               | Some r \<Rightarrow> Some (assetFilename L (url_toString r)))
       srcs"

definition kept_or_local :: "string list \<Rightarrow> img list \<Rightarrow> img list \<Rightarrow> bool" where
  "kept_or_local names old new =
     list_all2 (\<lambda>i j. i_src j = i_src i \<or> (\<exists>n \<in> set names. i_src j = Some (''assets/'' @ n)))
       old new"

subsection \<open>One iteration of the crawl loop\<close>

text \<open>
  \<open>visit\<close> is the body of the \<open>try\<close> from line 100 on, for the visit number \<open>n\<close> of
  a page that rendered; \<open>s\<close> is the state after \<open>queue.shift()\<close>. An exception leaves
  the \<open>try\<close> with what was done so far: the queue keeps the URLs the anchors pushed and
  the asset directory keeps the images, but nothing is recorded in \<open>visited\<close>.
\<close>

definition visit :: "lib \<Rightarrow> env \<Rightarrow> string \<Rightarrow> nat \<Rightarrow> crawl \<Rightarrow> string \<Rightarrow> dom \<Rightarrow> crawl" where
  "visit L E host n s url d =
     (let title = page_title L d;
          slug = uniqueSlug L title (visited s);
          filename = slug @ ''.html'';
          images = image_sources d
      in case URL1 L url of
           None \<Rightarrow> s
         | Some urlObj \<Rightarrow>
             (let (as', q') = rewrite_anchors L host (visited s) urlObj (d_anchors d) (queue s);
                  d1 = injectMinimalBundle (d\<lparr>d_anchors := as'\<rparr>);
                  (imgs', fs', dl') =
                    process_images L E urlObj images (d_imgs d1) (assets s) (downloads s);
                  d2 = d1\<lparr>d_imgs := imgs'\<rparr>;
                  s1 = s\<lparr>queue := q', assets := fs', downloads := dl'\<rparr>
              in if write_ok E n filename
                 then s1\<lparr>site := (site s)(filename \<mapsto> toString L d2),
                         visited := map_set (visited s) url
                           \<lparr>e_title = title, e_filename = filename\<rparr>\<rparr>
                 else s1))"

text \<open>
  The body of the \<open>while\<close> loop. The loop only runs it on a queue that is not empty.
\<close>

definition iteration :: "lib \<Rightarrow> env \<Rightarrow> string \<Rightarrow> crawl \<Rightarrow> crawl" where
  "iteration L E host s =
     (case queue s of
        [] \<Rightarrow> s
      | url # rest \<Rightarrow>
          if map_has (visited s) url then s\<lparr>queue := rest\<rparr>
          else
            (let n = length (fetched s);
                 s' = s\<lparr>queue := rest, fetched := fetched s @ [url]\<rparr>
             in case goto E n url of
                  NavError \<Rightarrow> s'
                | BadStatus \<Rightarrow> s'
                | Rendered d \<Rightarrow> visit L E host n s' url d))"

text \<open>
  A rendered page is persisted, and only then recorded in \<open>visited\<close>, when its URL
  parses (line 116) and its file can be written (line 170).
\<close>

definition persists :: "lib \<Rightarrow> env \<Rightarrow> nat \<Rightarrow> visited_map \<Rightarrow> string \<Rightarrow> dom \<Rightarrow> bool" where
  "persists L E n vis url d =
     (URL1 L url \<noteq> None \<and> write_ok E n (uniqueSlug L (page_title L d) vis @ ''.html''))"

definition running :: "crawl \<Rightarrow> bool" where
  "running s = (queue s \<noteq> [] \<and> length (visited s) < MAX_PAGES)"

text \<open>
  \<open>while (queue.length && visited.size < MAX_PAGES)\<close>. The result \<open>None\<close> is a loop
  that never ends.
\<close>

partial_function (option) crawl_loop :: "lib \<Rightarrow> env \<Rightarrow> string \<Rightarrow> crawl \<Rightarrow> crawl option" where
  "crawl_loop L E host s =
     (if running s then crawl_loop L E host (iteration L E host s) else Some s)"

declare crawl_loop.simps [code]

subsection \<open>The link fix pass and the whole run\<close>

definition fix_html :: "lib \<Rightarrow> visited_map \<Rightarrow> string \<Rightarrow> string" where
  "fix_html L vis html =
     foldl (\<lambda>h (u2, m2).
              case RegExp_g L (escapeRegExp u2) of
                None \<Rightarrow> h
              | Some replace \<Rightarrow> replace (e_filename m2) h)
       html vis"

text \<open>
  The outer loop of the fix pass over the entries \<open>todo\<close> still to come; \<open>None\<close> is
  the exception of \<open>fs.readFileSync\<close> on a missing file, which nothing catches.
\<close>

fun fix_pass ::
  "lib \<Rightarrow> visited_map \<Rightarrow> visited_map \<Rightarrow> (string \<rightharpoonup> string) \<Rightarrow> (string \<rightharpoonup> string) option" where
  "fix_pass L vis [] fs = Some fs"
| "fix_pass L vis ((url, meta) # todo) fs =
     (case fs (e_filename meta) of
        None \<Rightarrow> None
      | Some html \<Rightarrow> fix_pass L vis todo (fs(e_filename meta \<mapsto> fix_html L vis html)))"

datatype outcome = Exit_1 | Uncaught | Done crawl

definition initial :: "lib \<Rightarrow> string \<Rightarrow> (string \<rightharpoonup> string) \<Rightarrow> (string \<rightharpoonup> string) \<Rightarrow> crawl" where
  "initial L START_URL site0 assets0 =
     \<lparr>queue = [normalizeUrl L START_URL], visited = [], site = site0, assets = assets0,
      fetched = [], downloads = []\<rparr>"

text \<open>
  The script from top to bottom, started on \<open>START_URL\<close> with the output directories as
  an earlier run left them. \<open>None\<close> is a run that never ends.
\<close>

definition clone ::
  "lib \<Rightarrow> env \<Rightarrow> string \<Rightarrow> (string \<rightharpoonup> string) \<Rightarrow> (string \<rightharpoonup> string) \<Rightarrow> outcome option" where
  "clone L E START_URL site0 assets0 =
     (if START_URL = [] then Some Exit_1
      else
        (case URL1 L START_URL of
           None \<Rightarrow> Some Exit_1
         | Some x \<Rightarrow>
             (case crawl_loop L E (u_host x) (initial L START_URL site0 assets0) of
                None \<Rightarrow> None
              | Some s \<Rightarrow>
                  (case fix_pass L (visited s) (visited s) (site s) of
                     None \<Rightarrow> Some Uncaught
                   | Some fs \<Rightarrow> Some (Done (s\<lparr>site := fs\<rparr>))))))"

section \<open>A small library and a small web\<close>

text \<open>
  The closed examples below need libraries that compute. \<open>demo\<close> implements each library
  function on a fragment of its inputs, on which it agrees with the real library, and
  only that fragment is used:
  \<^item> URLs are \<open>http://host/path#fragment\<close> or \<open>https://host/path#fragment\<close> with a
    lower-case host of letters, digits, dots and hyphens, a path of letters, digits,
    \<open>/\<close>, \<open>-\<close> and \<open>_\<close>, and no query; a reference is such a URL, a path that starts
    with one \<open>/\<close>, a fragment, or the empty string, which stands for the base
    without its fragment. Everything else is reported as a \<open>TypeError\<close>, as the
    real parser does for a string with no scheme and for an empty host.
  \<^item> \<open>slugify\<close> is exact on letters, digits, spaces and hyphens.
  \<^item> A regular expression is a sequence of ordinary characters and dots.
  \<^item> The serialiser writes the elements the model keeps, and stands \<open>BUNDLE-STYLE\<close> and
    \<open>BUNDLE-SCRIPT\<close> for the injected style and script, which contain no URL.
\<close>

definition is_space :: "char \<Rightarrow> bool" where
  "is_space c = (c = CHR '' '' \<or> c = CHR 0x09 \<or> c = CHR 0x0A \<or> c = CHR 0x0D)"

definition demo_trim :: "string \<Rightarrow> string" where
  "demo_trim s = rev (dropWhile is_space (rev (dropWhile is_space s)))"

fun collapse_spaces :: "bool \<Rightarrow> string \<Rightarrow> string" where
  "collapse_spaces b [] = []"
| "collapse_spaces b (c # cs) =
     (if is_space c then (if b then collapse_spaces True cs else CHR ''-'' # collapse_spaces True cs)
      else c # collapse_spaces False cs)"

definition demo_slugify :: "string \<Rightarrow> string" where
  "demo_slugify s =
     (let spaced = map (\<lambda>c. if c = CHR ''-'' then CHR '' '' else c) s;
          strict = filter (\<lambda>c. is_alnum c \<or> is_space c) spaced
      in map lower_char (collapse_spaces False (demo_trim strict)))"

definition host_char :: "char \<Rightarrow> bool" where
  "host_char c = ((is_alnum c \<and> lower_char c = c) \<or> c = CHR ''.'' \<or> c = CHR ''-'')"

definition path_char :: "char \<Rightarrow> bool" where
  "path_char c = (is_alnum c \<or> c = CHR ''/'' \<or> c = CHR ''-'' \<or> c = CHR ''_'')"

definition strip_prefix :: "string \<Rightarrow> string \<Rightarrow> string option" where
  "strip_prefix p s = (if take (length p) s = p then Some (drop (length p) s) else None)"

definition demo_parse :: "string \<Rightarrow> string \<Rightarrow> url option" where
  "demo_parse scheme rest =
     (let host = takeWhile (\<lambda>c. c \<noteq> CHR ''/'' \<and> c \<noteq> CHR ''#'') rest;
          after = dropWhile (\<lambda>c. c \<noteq> CHR ''/'' \<and> c \<noteq> CHR ''#'') rest;
          path = takeWhile (\<lambda>c. c \<noteq> CHR ''#'') after;
          frag = dropWhile (\<lambda>c. c \<noteq> CHR ''#'') after;
          pathname = (if path = [] then ''/'' else path)
      in if host = [] \<or> \<not> list_all host_char host \<or> \<not> list_all path_char path
            \<or> \<not> list_all is_alnum (tl frag)
         then None
         else Some \<lparr>u_host = host, u_pathname = pathname,
                    u_base = scheme @ host @ pathname,
                    u_fragment = (if frag = [] then None else Some (tl frag))\<rparr>)"

definition demo_URL1 :: "string \<Rightarrow> url option" where
  "demo_URL1 u =
     (case strip_prefix ''https://'' u of
        Some rest \<Rightarrow> demo_parse ''https://'' rest
      | None \<Rightarrow>
          (case strip_prefix ''http://'' u of
             Some rest \<Rightarrow> demo_parse ''http://'' rest
           | None \<Rightarrow> None))"

definition demo_origin :: "url \<Rightarrow> string" where
  "demo_origin b =
     (if strip_prefix ''https://'' (u_base b) \<noteq> None then ''https://'' else ''http://'') @ u_host b"

definition demo_URL2 :: "string \<Rightarrow> url \<Rightarrow> url option" where
  "demo_URL2 href b =
     (if href = [] then Some (clear_hash b)
      else if strip_prefix ''https://'' href \<noteq> None \<or> strip_prefix ''http://'' href \<noteq> None
      then demo_URL1 href
      else if strip_prefix ''/'' href \<noteq> None \<and> strip_prefix ''//'' href = None
      then demo_URL1 (demo_origin b @ href)
      else if strip_prefix ''#'' href \<noteq> None
      then demo_URL1 (u_base b @ href)
      else None)"

text \<open>Base64 of RFC 4648 with padding, three bytes to four characters.\<close>

definition b64_char :: "nat \<Rightarrow> char" where
  "b64_char n =
     ''ABCDEFGHIJKLMNOPQRSTUVWXYZabcdefghijklmnopqrstuvwxyz0123456789+/'' ! (n mod 64)"

fun demo_base64 :: "string \<Rightarrow> string" where
  "demo_base64 (a # b # c # rest) =
     (let n = (of_char a :: nat) * 65536 + of_char b * 256 + of_char c
      in [b64_char (n div 262144), b64_char (n div 4096 mod 64),
          b64_char (n div 64 mod 64), b64_char (n mod 64)] @ demo_base64 rest)"
| "demo_base64 [a, b] =
     (let n = (of_char a :: nat) * 65536 + of_char b * 256
      in [b64_char (n div 262144), b64_char (n div 4096 mod 64),
          b64_char (n div 64 mod 64), CHR ''='']) "
| "demo_base64 [a] =
     (let n = (of_char a :: nat) * 65536
      in [b64_char (n div 262144), b64_char (n div 4096 mod 64), CHR ''='', CHR ''=''])"
| "demo_base64 [] = []"

fun matches_here :: "string \<Rightarrow> string \<Rightarrow> bool" where
  "matches_here [] s = True"
| "matches_here (p # ps) [] = False"
| "matches_here (p # ps) (c # cs) =
     (((p = CHR ''.'' \<and> \<not> line_terminator c) \<or> (p \<noteq> CHR ''.'' \<and> p = c)) \<and> matches_here ps cs)"

text \<open>
  \<open>replace_all p r k s\<close>: the global replace of the fixed-length pattern \<open>p\<close>, with
  \<open>k\<close> characters of the last match still to skip.
\<close>

fun replace_all :: "string \<Rightarrow> string \<Rightarrow> nat \<Rightarrow> string \<Rightarrow> string" where
  "replace_all p r k [] = []"
| "replace_all p r (Suc k) (c # cs) = replace_all p r k cs"
| "replace_all p r 0 (c # cs) =
     (if matches_here p (c # cs) then r @ replace_all p r (length p - 1) cs
      else c # replace_all p r 0 cs)"

definition plain_pattern_char :: "char \<Rightarrow> bool" where
  "plain_pattern_char c = (c = CHR ''.'' \<or> (\<not> regexp_special c \<and> c \<noteq> CHR '']''))"

definition demo_RegExp_g :: "string \<Rightarrow> (string \<Rightarrow> string \<Rightarrow> string) option" where
  "demo_RegExp_g p =
     (if p \<noteq> [] \<and> list_all plain_pattern_char p
      then Some (\<lambda>r s. replace_all p r 0 s)
      else None)"

definition attr :: "string \<Rightarrow> string option \<Rightarrow> string" where
  "attr name v = (case v of None \<Rightarrow> [] | Some x \<Rightarrow> '' '' @ name @ ''='' @ [CHR 0x22] @ x @ [CHR 0x22])"

definition anchor_html :: "anchor \<Rightarrow> string" where
  "anchor_html a =
     ''<a'' @ attr ''href'' (a_href a) @ attr ''target'' (a_target a) @ attr ''rel'' (a_rel a)
       @ ''>'' @ a_text a @ ''</a>''"

definition img_html :: "img \<Rightarrow> string" where
  "img_html i = ''<img'' @ attr ''src'' (i_src i) @ ''>''"

definition demo_toString :: "dom \<Rightarrow> string" where
  "demo_toString d =
     ''<html>''
     @ (if d_head d
        then ''<head>'' @ (case d_title d of None \<Rightarrow> [] | Some t \<Rightarrow> ''<title>'' @ t @ ''</title>'')
             @ (if d_bundle d then ''BUNDLE-STYLE'' else []) @ ''</head>''
        else [])
     @ (if d_body d
        then ''<body>'' @ concat (map anchor_html (d_anchors d)) @ concat (map img_html (d_imgs d))
             @ d_rest d @ (if d_bundle d then ''BUNDLE-SCRIPT'' else []) @ ''</body>''
        else [])
     @ ''</html>''"

definition demo :: lib where
  "demo = \<lparr>URL1 = demo_URL1, URL2 = demo_URL2, slugify = demo_slugify, trim = demo_trim,
           base64 = demo_base64, RegExp_g = demo_RegExp_g, toString = demo_toString\<rparr>"

section \<open>Example pages\<close>

text \<open>
  Two pages of a site served on \<open>localhost\<close>. Notion page URLs end in a 32-digit
  identifier, with or without hyphens.
\<close>

definition HOME :: string where
  "HOME = ''http://localhost/0123456789abcdef0123456789abcdef''"

definition ABOUT :: string where
  "ABOUT = ''http://localhost/About-fedcba98-7654-3210-fedc-ba9876543210''"

definition home_url :: url where
  "home_url = \<lparr>u_host = ''localhost'', u_pathname = ''/0123456789abcdef0123456789abcdef'',
      u_base = HOME, u_fragment = None\<rparr>"

definition about_url :: url where
  "about_url = \<lparr>u_host = ''localhost'',
      u_pathname = ''/About-fedcba98-7654-3210-fedc-ba9876543210'',
      u_base = ABOUT, u_fragment = None\<rparr>"

text \<open>A page of the site that is not a Notion page.\<close>

definition welcome_url :: url where
  "welcome_url = \<lparr>u_host = ''localhost'', u_pathname = ''/welcome'',
      u_base = ''http://localhost/welcome'', u_fragment = None\<rparr>"

definition link :: "string \<Rightarrow> string \<Rightarrow> anchor" where
  "link href text = \<lparr>a_href = Some href, a_text = text, a_target = None, a_rel = None\<rparr>"

definition page :: "string \<Rightarrow> anchor list \<Rightarrow> img list \<Rightarrow> dom" where
  "page title as imgs =
     \<lparr>d_title = Some title, d_head = True, d_body = True, d_anchors = as, d_imgs = imgs,
      d_bundle = False, d_rest = []\<rparr>"

text \<open>A page as it is saved when it has no images: with the bundle appended.\<close>

definition saved :: "string \<Rightarrow> anchor list \<Rightarrow> dom" where
  "saved title as = (page title as [])\<lparr>d_bundle := True\<rparr>"

text \<open>
  A home page with a link to the About page, whose link text is not the title of the
  About page, and a link to another site.
\<close>

definition home_page :: dom where
  "home_page = page ''Home'' [link ABOUT ''Next'', link ''https://example.com/docs'' ''Docs''] []"

definition about_page :: dom where
  "about_page = page ''About'' [] []"

definition no_downloads :: "nat \<Rightarrow> string \<Rightarrow> string option" where
  "no_downloads k u = None"

definition in_order :: "nat \<Rightarrow> nat" where
  "in_order k = k"

definition always :: "nat \<Rightarrow> string \<Rightarrow> bool" where
  "always n f = True"

definition two_pages :: env where
  "two_pages =
     \<lparr>goto = (\<lambda>n u. if u = HOME then Rendered home_page
                     else if u = ABOUT then Rendered about_page else BadStatus),
      axios_get = no_downloads, arrival = in_order, write_ok = always\<rparr>"

text \<open>
  The two pages as the run leaves them in \<open>site/\<close>, and the state after each of the two
  iterations of the crawl.
\<close>

definition home_saved :: dom where
  "home_saved =
     \<lparr>d_title = Some ''Home'', d_head = True, d_body = True,
      d_anchors = [\<lparr>a_href = Some ''next.html'', a_text = ''Next'', a_target = None, a_rel = None\<rparr>,
                   \<lparr>a_href = Some ''https://example.com/docs'', a_text = ''Docs'',
                     a_target = Some ''_blank'', a_rel = Some ''noopener noreferrer''\<rparr>],
      d_imgs = [], d_bundle = True, d_rest = []\<rparr>"

definition about_saved :: dom where
  "about_saved =
     \<lparr>d_title = Some ''About'', d_head = True, d_body = True, d_anchors = [],
      d_imgs = [], d_bundle = True, d_rest = []\<rparr>"

definition after_home :: crawl where
  "after_home =
     \<lparr>queue = [ABOUT],
      visited = [(HOME, \<lparr>e_title = ''Home'', e_filename = ''home.html''\<rparr>)],
      site = [''home.html'' \<mapsto> demo_toString home_saved],
      assets = Map.empty, fetched = [HOME], downloads = []\<rparr>"

definition after_about :: crawl where
  "after_about =
     \<lparr>queue = [],
      visited = [(HOME, \<lparr>e_title = ''Home'', e_filename = ''home.html''\<rparr>),
                 (ABOUT, \<lparr>e_title = ''About'', e_filename = ''about.html''\<rparr>)],
      site = [''home.html'' \<mapsto> demo_toString home_saved,
              ''about.html'' \<mapsto> demo_toString about_saved],
      assets = Map.empty, fetched = [HOME, ABOUT], downloads = []\<rparr>"

text \<open>
  A site of three pages: the home page links to a broken page and to a third page, and
  the third page links to the broken page too. The broken page answers with an error
  status every time.
\<close>

definition BROKEN :: string where
  "BROKEN = ''http://localhost/Broken-00000000000000000000000000000001''"

definition THIRD :: string where
  "THIRD = ''http://localhost/Third-00000000000000000000000000000002''"

definition broken_link_site :: env where
  "broken_link_site =
     \<lparr>goto = (\<lambda>n u. if u = HOME then Rendered (page ''Home'' [link BROKEN ''Broken'', link THIRD ''Third''] [])
                     else if u = THIRD then Rendered (page ''Third'' [link BROKEN ''Broken again''] [])
                     else BadStatus),
      axios_get = no_downloads, arrival = in_order, write_ok = always\<rparr>"

text \<open>A page that links to a heading of its own.\<close>

definition self_link_site :: env where
  "self_link_site =
     \<lparr>goto = (\<lambda>n u. if u = HOME then Rendered (page ''Home'' [link ''#contents'' ''Contents''] [])
                     else BadStatus),
      axios_get = no_downloads, arrival = in_order, write_ok = always\<rparr>"

text \<open>The state after the first iteration on the page that links to itself.\<close>

definition self_1 :: crawl where
  "self_1 =
     \<lparr>queue = [HOME],
      visited = [(HOME, \<lparr>e_title = ''Home'', e_filename = ''home.html''\<rparr>)],
      site = [''home.html'' \<mapsto> demo_toString (saved ''Home'' [link ''contents.html'' ''Contents''])],
      assets = Map.empty, fetched = [HOME], downloads = []\<rparr>"



text \<open>
  A hub page with 151 links to pages of the site, numbered 0 to 150, that all answer with
  an error status.
\<close>

definition numbered_id :: "nat \<Rightarrow> string" where
  "numbered_id i =
     ''00000000000000000000000000000''
       @ [digit_char (i div 100 mod 10), digit_char (i div 10 mod 10), digit_char (i mod 10)]"

definition dead_link :: "nat \<Rightarrow> string" where
  "dead_link i = ''http://localhost/'' @ numbered_id i"

definition hub :: dom where
  "hub = page ''Hub'' (map (\<lambda>i. link (dead_link i) ''dead'') [0..<151]) []"

definition hub_site :: env where
  "hub_site =
     \<lparr>goto = (\<lambda>n u. if u = HOME then Rendered hub else BadStatus),
      axios_get = no_downloads, arrival = in_order, write_ok = always\<rparr>"

text \<open>
  An image of the site, and a world in which every download succeeds and delivers bytes
  that tell which request they answer.
\<close>

definition LOGO :: string where
  "LOGO = ''http://localhost/img/logo''"

definition logo_url :: url where
  "logo_url = \<lparr>u_host = ''localhost'', u_pathname = ''/img/logo'', u_base = LOGO, u_fragment = None\<rparr>"

definition numbered_bytes :: "nat \<Rightarrow> string \<Rightarrow> string option" where
  "numbered_bytes k u = Some (''bytes of request '' @ decimal k)"


definition logo_site :: env where
  "logo_site = \<lparr>goto = (\<lambda>n u. BadStatus), axios_get = numbered_bytes, arrival = in_order, write_ok = always\<rparr>"

text \<open>The same world, but the answers arrive in the reverse order of the requests.\<close>

definition latest_first :: "nat \<Rightarrow> nat" where
  "latest_first k = 100 - k"

definition logo_site_reversed :: env where
  "logo_site_reversed = logo_site\<lparr>arrival := latest_first\<rparr>"

text \<open>
  Two pages with the same title: the home page links to a second page that is titled
  \<open>Home\<close> as well. \<open>twins_1\<close> is the state after the home page, \<open>twins_2\<close> the state
  the crawl ends in.
\<close>

definition twin_site :: env where
  "twin_site =
     \<lparr>goto = (\<lambda>n u. if u = HOME then Rendered (page ''Home'' [link ABOUT ''Next''] [])
                     else if u = ABOUT then Rendered (page ''Home'' [] []) else BadStatus),
      axios_get = no_downloads, arrival = in_order, write_ok = always\<rparr>"

definition twins_1 :: crawl where
  "twins_1 =
     \<lparr>queue = [ABOUT],
      visited = [(HOME, \<lparr>e_title = ''Home'', e_filename = ''home.html''\<rparr>)],
      site = [''home.html'' \<mapsto> demo_toString (saved ''Home'' [link ''next.html'' ''Next''])],
      assets = Map.empty, fetched = [HOME], downloads = []\<rparr>"

definition twins_2 :: crawl where
  "twins_2 =
     \<lparr>queue = [],
      visited = [(HOME, \<lparr>e_title = ''Home'', e_filename = ''home.html''\<rparr>),
                 (ABOUT, \<lparr>e_title = ''Home'', e_filename = ''home.html''\<rparr>)],
      site = [''home.html'' \<mapsto> demo_toString (saved ''Home'' [])],
      assets = Map.empty, fetched = [HOME, ABOUT], downloads = []\<rparr>"

text \<open>
  The page that links to a heading of its own, on a disk that is full: no page file can
  be written.
\<close>

definition never :: "nat \<Rightarrow> string \<Rightarrow> bool" where
  "never n f = False"

definition full_disk_site :: env where
  "full_disk_site =
     \<lparr>goto = (\<lambda>n u. if u = HOME then Rendered (page ''Home'' [link ''#contents'' ''Contents''] [])
                     else BadStatus),
      axios_get = no_downloads, arrival = in_order, write_ok = never\<rparr>"

section \<open>Facts about the helpers\<close>

lemmas demo_chars = is_alnum_def is_space_def lower_char_def BACKSLASH_def is_hex_def
  line_terminator_def host_char_def path_char_def

lemmas demo_url = demo_def demo_URL1_def demo_URL2_def demo_parse_def demo_origin_def
  strip_prefix_def url_toString_def clear_hash_def Let_def

lemmas demo_text = demo_slugify_def demo_trim_def or_page_def

lemma URL1_HOME: "URL1 demo HOME = Some home_url"
  by (simp add: HOME_def home_url_def demo_url demo_chars)


subsection \<open>The regular expression of isNotionPage\<close>







section \<open>The page classifier\<close>





section \<open>The URL normaliser\<close>

text \<open>
  C5, as the code has it. \<open>normalizeUrl\<close> takes one string and no base URL. On a string
  that parses as an absolute URL it returns the serialisation of that URL without its
  fragment, so two such strings whose URLs differ only in the fragment are mapped to the
  same string. On every other string, a relative reference included, it returns the
  string unchanged. It is a function of its argument and of nothing else.
\<close>

theorem normalizeUrl_cases:
  "(\<forall>x. URL1 L u = Some x \<longrightarrow>
       normalizeUrl L u = url_toString (clear_hash x) \<and> normalizeUrl L u = u_base x
       \<and> u_fragment (clear_hash x) = None)
   \<and> (URL1 L u = None \<longrightarrow> normalizeUrl L u = u)
   \<and> (\<forall>x y. URL1 L u = Some x \<and> URL1 L v = Some y \<and> clear_hash x = clear_hash y \<longrightarrow>
         normalizeUrl L u = normalizeUrl L v)"
  by (auto simp: normalizeUrl_def url_toString_def clear_hash_def)

theorem normalizeUrl_cases_witness:
  "URL1 demo ''http://localhost/p#a'' =
     Some \<lparr>u_host = ''localhost'', u_pathname = ''/p'', u_base = ''http://localhost/p'',
           u_fragment = Some ''a''\<rparr>
   \<and> URL1 demo ''http://localhost/p#b'' =
     Some \<lparr>u_host = ''localhost'', u_pathname = ''/p'', u_base = ''http://localhost/p'',
           u_fragment = Some ''b''\<rparr>
   \<and> normalizeUrl demo ''http://localhost/p#a'' = ''http://localhost/p''
   \<and> normalizeUrl demo ''http://localhost/p#b'' = ''http://localhost/p''
   \<and> URL1 demo ''ht!tp:/nowhere'' = None
   \<and> normalizeUrl demo ''ht!tp:/nowhere'' = ''ht!tp:/nowhere''"
proof -
  have a: "URL1 demo ''http://localhost/p#a'' =
     Some \<lparr>u_host = ''localhost'', u_pathname = ''/p'', u_base = ''http://localhost/p'',
           u_fragment = Some ''a''\<rparr>"
    by (simp add: demo_url demo_chars)
  have b: "URL1 demo ''http://localhost/p#b'' =
     Some \<lparr>u_host = ''localhost'', u_pathname = ''/p'', u_base = ''http://localhost/p'',
           u_fragment = Some ''b''\<rparr>"
    by (simp add: demo_url demo_chars)
  have c: "URL1 demo ''ht!tp:/nowhere'' = None"
    by (simp add: demo_url)
  let ?xa = "\<lparr>u_host = ''localhost'', u_pathname = ''/p'', u_base = ''http://localhost/p'',
           u_fragment = Some ''a''\<rparr>"
  let ?xb = "\<lparr>u_host = ''localhost'', u_pathname = ''/p'', u_base = ''http://localhost/p'',
           u_fragment = Some ''b''\<rparr>"
  have eq: "clear_hash ?xa = clear_hash ?xb" by (simp add: clear_hash_def)
  from normalizeUrl_cases [of demo "''http://localhost/p#a''" "''http://localhost/p#b''"] a
  have "normalizeUrl demo ''http://localhost/p#a'' = u_base ?xa" by blast
  then have na: "normalizeUrl demo ''http://localhost/p#a'' = ''http://localhost/p''" by simp
  from normalizeUrl_cases [of demo "''http://localhost/p#a''" "''http://localhost/p#b''"] a b eq
  have "normalizeUrl demo ''http://localhost/p#a'' = normalizeUrl demo ''http://localhost/p#b''"
    by blast
  with na have ab: "normalizeUrl demo ''http://localhost/p#a'' = ''http://localhost/p''
     \<and> normalizeUrl demo ''http://localhost/p#b'' = ''http://localhost/p''" by simp
  from normalizeUrl_cases [of demo "''ht!tp:/nowhere''"] c
  have "normalizeUrl demo ''ht!tp:/nowhere'' = ''ht!tp:/nowhere''" by simp
  with a b c ab show ?thesis by simp
qed

text \<open>
  C5 as the specification states it fails on relative references: there is no base to
  resolve them against, \<open>new URL(u)\<close> throws, and the two references below, which differ
  only in their fragment, come back unchanged, fragment included.
\<close>

theorem normalizeUrl_relative_unchanged:
  "normalizeUrl demo ''/about#team'' = ''/about#team''
   \<and> normalizeUrl demo ''/about#jobs'' = ''/about#jobs''
   \<and> normalizeUrl demo ''/about#team'' \<noteq> normalizeUrl demo ''/about#jobs''"
  by (simp add: normalizeUrl_def demo_url)

section \<open>The link rewriter\<close>

lemma rewrite_anchors_append:
  "rewrite_anchors L host vis urlObj (bs @ cs) q =
     (let (bs', q1) = rewrite_anchors L host vis urlObj bs q;
          (cs', q2) = rewrite_anchors L host vis urlObj cs q1
      in (bs' @ cs', q2))"
  by (induction bs arbitrary: q) (simp_all add: Let_def split: prod.splits)

lemma rewrite_ABOUT:
  "rewrite_anchor demo ''localhost'' [] home_url (link ABOUT ''Next'') q =
     (link ''next.html'' ''Next'', if ABOUT \<in> set q then q else q @ [ABOUT])"
  by (simp add: rewrite_anchor_def link_def mapped_name_def link_guess_def map_has_def
      normalizeUrl_def in_scope_def isNotionPage_def remove_hyphens_def
      ABOUT_def home_url_def demo_url demo_chars demo_text)

text \<open>
  C10. An anchor whose \<open>href\<close> does not resolve against the URL of the page is left as
  it is: the \<open>href\<close> keeps its value and no \<open>target\<close> or \<open>rel\<close> is added. Nothing is
  pushed on the queue for it, and the anchors before and after it are rewritten as if it
  were not there.
\<close>

theorem unresolvable_anchor_untouched:
  assumes "a_href a = Some href" and "URL2 L href urlObj = None"
  shows "rewrite_anchor L host vis urlObj a q = (a, q)
     \<and> rewrite_anchors L host vis urlObj (bs @ a # cs) q =
         (let (bs', q1) = rewrite_anchors L host vis urlObj bs q;
              (cs', q2) = rewrite_anchors L host vis urlObj cs q1
          in (bs' @ a # cs', q2))"
proof -
  from assms have one: "rewrite_anchor L host vis urlObj a q' = (a, q')" for q'
    by (simp add: rewrite_anchor_def)
  then show ?thesis
    by (simp add: rewrite_anchors_append Let_def split: prod.splits)
qed

theorem unresolvable_anchor_untouched_witness:
  "a_href (link ''https://'' ''Broken'') = Some ''https://''
   \<and> URL2 demo ''https://'' home_url = None
   \<and> rewrite_anchors demo ''localhost'' [] home_url
        [link ''https://'' ''Broken'', link ABOUT ''Next''] []
      = ([link ''https://'' ''Broken'', link ''next.html'' ''Next''], [ABOUT])"
proof -
  have h: "a_href (link ''https://'' ''Broken'') = Some ''https://''" by (simp add: link_def)
  have u: "URL2 demo ''https://'' home_url = None" by (simp add: demo_url)
  from unresolvable_anchor_untouched [OF h u, of "''localhost''" "[]" "[]" "[link ABOUT ''Next'']" "[]"]
  show ?thesis using h u by (simp add: rewrite_ABOUT)
qed

text \<open>
  C8, as the code has it. An anchor with an \<open>href\<close> that is not empty and whose
  resolved URL is out of scope keeps the \<open>href\<close> it was written with, which is the
  absolute URL only when the page spelled it so, and gets \<open>target="_blank"\<close> and
  \<open>rel="noopener noreferrer"\<close>; the queue is left alone. An anchor with no \<open>href\<close>
  or an empty one is left as it is and gets no \<open>target\<close> and no \<open>rel\<close>, whatever the
  empty reference would resolve to.
\<close>

theorem external_anchor_kept_as_is:
  "(\<forall>href r. a_href a = Some href \<and> href \<noteq> [] \<and> URL2 L href urlObj = Some r
        \<and> in_scope L host (url_toString r) = Some False \<longrightarrow>
      rewrite_anchor L host vis urlObj a q =
        (a\<lparr>a_target := Some ''_blank'', a_rel := Some ''noopener noreferrer''\<rparr>, q)
      \<and> a_href (fst (rewrite_anchor L host vis urlObj a q)) = Some href)
   \<and> (a_href a = None \<or> a_href a = Some [] \<longrightarrow>
      rewrite_anchor L host vis urlObj a q = (a, q))"
  by (auto simp: rewrite_anchor_def)

lemma URL2_pricing:
  "URL2 demo ''/pricing'' home_url =
     Some \<lparr>u_host = ''localhost'', u_pathname = ''/pricing'',
            u_base = ''http://localhost/pricing'', u_fragment = None\<rparr>"
  by (simp add: home_url_def HOME_def demo_url demo_chars)

lemma pricing_out_of_scope: "in_scope demo ''localhost'' ''http://localhost/pricing'' = Some False"
  by (simp add: in_scope_def isNotionPage_def remove_hyphens_def demo_url demo_chars)

theorem external_anchor_kept_as_is_witness:
  "a_href (link ''/pricing'' ''Pricing'') = Some ''/pricing''
   \<and> rewrite_anchor demo ''localhost'' [] home_url (link ''/pricing'' ''Pricing'') [] =
       (\<lparr>a_href = Some ''/pricing'', a_text = ''Pricing'', a_target = Some ''_blank'',
         a_rel = Some ''noopener noreferrer''\<rparr>, [])
   \<and> a_href (link [] ''Top'') = Some []
   \<and> rewrite_anchor demo ''localhost'' [] home_url (link [] ''Top'') [] = (link [] ''Top'', [])"
proof -
  have h: "a_href (link ''/pricing'' ''Pricing'') = Some ''/pricing'' \<and> ''/pricing'' \<noteq> []"
    by (simp add: link_def)
  have s: "in_scope demo ''localhost'' (url_toString \<lparr>u_host = ''localhost'', u_pathname = ''/pricing'',
            u_base = ''http://localhost/pricing'', u_fragment = None\<rparr>) = Some False"
    by (simp add: url_toString_def pricing_out_of_scope)
  from external_anchor_kept_as_is [where a = "link ''/pricing'' ''Pricing''" and L = demo
      and urlObj = home_url and host = "''localhost''" and vis = "[]" and q = "[]"]
    h URL2_pricing s
  have 1: "rewrite_anchor demo ''localhost'' [] home_url (link ''/pricing'' ''Pricing'') [] =
       ((link ''/pricing'' ''Pricing'')\<lparr>a_target := Some ''_blank'',
           a_rel := Some ''noopener noreferrer''\<rparr>, [])"
    by blast
  have e: "a_href (link [] ''Top'') = Some []" by (simp add: link_def)
  from external_anchor_kept_as_is [where a = "link [] ''Top''" and L = demo
      and urlObj = home_url and host = "''localhost''" and vis = "[]" and q = "[]"] e
  have 2: "rewrite_anchor demo ''localhost'' [] home_url (link [] ''Top'') [] = (link [] ''Top'', [])"
    by blast
  from h 1 e 2 show ?thesis by (simp add: link_def)
qed

text \<open>
  C8 as the specification states it fails in two ways. A relative link to a page of the
  site that is not a Notion page resolves to \<open>http://localhost/pricing\<close>, which is out
  of scope, and its \<open>href\<close> stays \<open>/pricing\<close>. And on a page that is itself out of
  scope, an anchor with an empty \<open>href\<close> resolves to the URL of the page, but line 121
  has returned before anything is set: the anchor is not marked.
\<close>

theorem external_href_not_absolute:
  "URL2 demo ''/pricing'' home_url =
     Some \<lparr>u_host = ''localhost'', u_pathname = ''/pricing'',
            u_base = ''http://localhost/pricing'', u_fragment = None\<rparr>
   \<and> in_scope demo ''localhost'' ''http://localhost/pricing'' = Some False
   \<and> a_href (fst (rewrite_anchor demo ''localhost'' [] home_url (link ''/pricing'' ''Pricing'') []))
       = Some ''/pricing''
   \<and> a_href (fst (rewrite_anchor demo ''localhost'' [] home_url (link ''/pricing'' ''Pricing'') []))
       \<noteq> Some ''http://localhost/pricing''
   \<and> URL1 demo ''http://localhost/welcome'' = Some welcome_url
   \<and> URL2 demo [] welcome_url = Some welcome_url
   \<and> in_scope demo ''localhost'' (url_toString welcome_url) = Some False
   \<and> rewrite_anchor demo ''localhost'' [] welcome_url (link [] ''Top'') [] = (link [] ''Top'', [])
   \<and> a_target (link [] ''Top'') = None"
proof -
  have "rewrite_anchor demo ''localhost'' [] home_url (link ''/pricing'' ''Pricing'') [] =
       (\<lparr>a_href = Some ''/pricing'', a_text = ''Pricing'', a_target = Some ''_blank'',
         a_rel = Some ''noopener noreferrer''\<rparr>, [])"
    by (simp add: rewrite_anchor_def link_def URL2_pricing url_toString_def pricing_out_of_scope)
  moreover have "URL1 demo ''http://localhost/welcome'' = Some welcome_url"
    by (simp add: welcome_url_def demo_url demo_chars)
  moreover have "URL2 demo [] welcome_url = Some welcome_url"
    by (simp add: welcome_url_def demo_def demo_URL2_def clear_hash_def)
  moreover have "in_scope demo ''localhost'' (url_toString welcome_url) = Some False"
    by (simp add: welcome_url_def in_scope_def isNotionPage_def remove_hyphens_def demo_url
        demo_chars)
  moreover have "rewrite_anchor demo ''localhost'' [] welcome_url (link [] ''Top'') []
      = (link [] ''Top'', [])"
    by (simp add: rewrite_anchor_def link_def)
  ultimately show ?thesis by (simp add: URL2_pricing pricing_out_of_scope link_def)
qed

section \<open>Running the crawl\<close>

lemma crawl_loop_step:
  "running s \<Longrightarrow> crawl_loop L E host s = crawl_loop L E host (iteration L E host s)"
  by (subst crawl_loop.simps) simp

lemma crawl_loop_stop: "\<not> running s \<Longrightarrow> crawl_loop L E host s = Some s"
  by (subst crawl_loop.simps) simp

lemmas run_defs = iteration_def visit_def initial_def running_def MAX_PAGES_def
  map_has_def map_set_def page_title_def drop_suffix_def NOTION_SUFFIX_def
  uniqueSlug_def uniqueSlug_loop.simps strip_html_def image_sources_def uniq_def
  List.map_filter_def process_images_def arrival_order_def injectMinimalBundle_def
  rewrite_anchor_def mapped_name_def link_guess_def in_scope_def isNotionPage_def
  remove_hyphens_def normalizeUrl_def link_def page_def

lemmas site_defs = HOME_def ABOUT_def home_page_def about_page_def two_pages_def
  always_def no_downloads_def

subsection \<open>The queue and the visited map\<close>


lemma length_map_set:
  "length (map_set m k v) = (if map_has m k then length m else Suc (length m))"
  by (simp add: map_set_def)

text \<open>What one anchor does to the queue.\<close>

lemma rewrite_anchor_queue:
  "snd (rewrite_anchor L host vis urlObj a q) = q
   \<or> (\<exists>nh. snd (rewrite_anchor L host vis urlObj a q) = q @ [nh]
         \<and> \<not> map_has vis nh \<and> nh \<notin> set q)"
  by (auto simp: rewrite_anchor_def Let_def split: option.splits bool.splits)

lemma rewrite_anchors_queue:
  "\<exists>new. snd (rewrite_anchors L host vis urlObj as q) = q @ new
      \<and> (\<forall>u \<in> set new. \<not> map_has vis u \<and> u \<notin> set q)
      \<and> distinct new"
proof (induction as arbitrary: q)
  case Nil
  then show ?case by simp
next
  case (Cons a as)
  obtain a' q' where a: "rewrite_anchor L host vis urlObj a q = (a', q')"
    by (cases "rewrite_anchor L host vis urlObj a q")
  from Cons.IH [of q'] obtain new where
    new: "snd (rewrite_anchors L host vis urlObj as q') = q' @ new"
      "\<forall>u \<in> set new. \<not> map_has vis u \<and> u \<notin> set q'" "distinct new"
    by blast
  have whole: "snd (rewrite_anchors L host vis urlObj (a # as) q) = q' @ new"
    using a new(1) by (simp add: case_prod_beta)
  from rewrite_anchor_queue [of L host vis urlObj a q] a
  consider "q' = q" | nh where "q' = q @ [nh]" "\<not> map_has vis nh" "nh \<notin> set q"
    by auto
  then show ?case
  proof cases
    case 1
    with whole new show ?thesis by auto
  next
    case 2
    with whole have "snd (rewrite_anchors L host vis urlObj (a # as) q) = q @ (nh # new)"
      by simp
    moreover from 2 new have "\<forall>u \<in> set (nh # new). \<not> map_has vis u \<and> u \<notin> set q"
      by auto
    moreover from 2 new have "distinct (nh # new)" by auto
    ultimately show ?thesis by blast
  qed
qed

lemma visit_queue:
  "queue (visit L E host n s url d) =
     (case URL1 L url of
        None \<Rightarrow> queue s
      | Some urlObj \<Rightarrow> snd (rewrite_anchors L host (visited s) urlObj (d_anchors d) (queue s)))"
  by (simp add: visit_def Let_def split: option.splits prod.splits)

lemma visit_fetched: "fetched (visit L E host n s url d) = fetched s"
  by (simp add: visit_def Let_def split: option.splits prod.splits)

lemma visit_visited:
  "visited (visit L E host n s url d) =
     (if persists L E n (visited s) url d
      then map_set (visited s) url
             \<lparr>e_title = page_title L d,
              e_filename = uniqueSlug L (page_title L d) (visited s) @ ''.html''\<rparr>
      else visited s)"
  by (simp add: visit_def persists_def Let_def split: option.splits prod.splits)

text \<open>What one iteration does to the queue, to \<open>visited\<close> and to the log of visits.\<close>

lemma iteration_queue:
  assumes "queue s = url # rest"
  shows "\<exists>new. queue (iteration L E host s) = rest @ new
           \<and> (\<forall>u \<in> set new. \<not> map_has (visited s) u \<and> u \<notin> set rest) \<and> distinct new"
proof (cases "map_has (visited s) url")
  case True
  with assms show ?thesis by (simp add: iteration_def)
next
  case False
  show ?thesis
  proof (cases "goto E (length (fetched s)) url")
    case (Rendered d)
    let ?s' = "s\<lparr>queue := rest, fetched := fetched s @ [url]\<rparr>"
    have it: "iteration L E host s = visit L E host (length (fetched s)) ?s' url d"
      using assms False Rendered by (simp add: iteration_def Let_def)
    show ?thesis
    proof (cases "URL1 L url")
      case None
      with it show ?thesis by (simp add: visit_queue)
    next
      case (Some urlObj)
      with it have "queue (iteration L E host s) =
          snd (rewrite_anchors L host (visited s) urlObj (d_anchors d) rest)"
        by (simp add: visit_queue)
      with rewrite_anchors_queue [of L host "visited s" urlObj "d_anchors d" rest]
      show ?thesis by simp
    qed
  qed (use assms False in \<open>simp_all add: iteration_def Let_def\<close>)
qed

lemma iteration_distinct:
  assumes "distinct (queue s)"
  shows "distinct (queue (iteration L E host s))"
proof (cases "queue s")
  case Nil
  then show ?thesis by (simp add: iteration_def)
next
  case (Cons url rest)
  from iteration_queue [OF Cons, of L E host] obtain new where
    "queue (iteration L E host s) = rest @ new"
    "\<forall>u \<in> set new. \<not> map_has (visited s) u \<and> u \<notin> set rest" "distinct new"
    by blast
  with assms Cons show ?thesis by auto
qed

lemma iteration_visited:
  assumes "queue s = url # rest"
  shows "visited (iteration L E host s) = visited s
     \<or> (\<not> map_has (visited s) url
         \<and> (\<exists>e. visited (iteration L E host s) = visited s @ [(url, e)]))"
proof (cases "map_has (visited s) url")
  case True
  with assms show ?thesis by (simp add: iteration_def)
next
  case False
  then show ?thesis
    using assms
    by (cases "goto E (length (fetched s)) url")
       (auto simp: iteration_def Let_def visit_visited map_set_def)
qed

lemma reachable_distinct:
  "distinct (queue ((iteration L E host ^^ k) (initial L START_URL site0 assets0)))"
proof (induction k)
  case 0
  show ?case by (simp add: initial_def)
next
  case (Suc k)
  then show ?case by (simp add: iteration_distinct)
qed

lemma map_has_append: "map_has (m @ [(k, v)]) u \<longleftrightarrow> map_has m u \<or> u = k"
  by (auto simp: map_has_def map_of_eq_None_iff)

lemmas sites = HOME_def ABOUT_def BROKEN_def THIRD_def broken_link_site_def self_link_site_def
  always_def no_downloads_def saved_def

text \<open>
  The keys of \<open>visited\<close> stay distinct, so the length of the list is the \<open>size\<close> of
  the \<open>Map\<close>.
\<close>

lemma iteration_keys_distinct:
  assumes "distinct (map fst (visited s))"
  shows "distinct (map fst (visited (iteration L E host s)))"
proof (cases "queue s")
  case Nil
  with assms show ?thesis by (simp add: iteration_def)
next
  case (Cons url rest)
  from iteration_visited [OF Cons, of L E host] assms show ?thesis
    by (auto simp: map_has_def map_of_eq_None_iff)
qed

lemma reachable_keys_distinct:
  "distinct (map fst (visited ((iteration L E host ^^ k) (initial L START_URL site0 assets0))))"
proof (induction k)
  case 0
  show ?case by (simp add: initial_def)
next
  case (Suc k)
  then show ?case by (simp add: iteration_keys_distinct)
qed

subsection \<open>A link to a page that is visited later\<close>

lemma two_pages_1:
  "iteration demo two_pages ''localhost'' (initial demo HOME Map.empty Map.empty) = after_home"
  by (simp add: after_home_def home_saved_def run_defs site_defs demo_url demo_chars demo_text)

lemma two_pages_2:
  "iteration demo two_pages ''localhost'' after_home = after_about"
  by (simp add: after_home_def after_about_def about_saved_def run_defs site_defs demo_url demo_chars demo_text)

lemma two_pages_loop:
  "crawl_loop demo two_pages ''localhost'' (initial demo HOME Map.empty Map.empty) = Some after_about"
proof -
  have "running (initial demo HOME Map.empty Map.empty)"
    by (simp add: initial_def running_def MAX_PAGES_def)
  moreover have "running after_home"
    by (simp add: after_home_def running_def MAX_PAGES_def)
  moreover have "\<not> running after_about"
    by (simp add: after_about_def running_def)
  ultimately show ?thesis
    by (simp add: crawl_loop_step crawl_loop_stop two_pages_1 two_pages_2)
qed

lemma fix_home:
  "fix_html demo (visited after_about) (demo_toString home_saved) = demo_toString home_saved"
  by (simp add: fix_html_def after_about_def home_saved_def demo_toString_def anchor_html_def attr_def
      demo_def demo_RegExp_g_def plain_pattern_char_def regexp_special_def BACKSLASH_def
      line_terminator_def HOME_def ABOUT_def)

lemma fix_about:
  "fix_html demo (visited after_about) (demo_toString about_saved) = demo_toString about_saved"
  by (simp add: fix_html_def after_about_def about_saved_def demo_toString_def anchor_html_def attr_def
      demo_def demo_RegExp_g_def plain_pattern_char_def regexp_special_def BACKSLASH_def
      line_terminator_def HOME_def ABOUT_def)

text \<open>
  C1 does not hold of the code. The home page links to the About page under the text
  \<open>Next\<close>. When the home page is rewritten the About page has not been visited, so the
  \<open>href\<close> becomes the guess \<open>next.html\<close> and the URL of the About page is gone from the
  markup. The fix pass looks for that URL, finds nothing, and leaves the file as it is:
  after the whole run the link still reads \<open>next.html\<close>, the About page is saved as
  \<open>about.html\<close>, and there is no \<open>next.html\<close>.
\<close>

theorem forward_link_keeps_guess:
  "clone demo two_pages HOME Map.empty Map.empty = Some (Done after_about)
   \<and> map_of (visited after_about) ABOUT = Some \<lparr>e_title = ''About'', e_filename = ''about.html''\<rparr>
   \<and> site after_about ''home.html'' = Some (demo_toString home_saved)
   \<and> map (\<lambda>a. a_href a) (d_anchors home_saved) = [Some ''next.html'', Some ''https://example.com/docs'']
   \<and> site after_about ''next.html'' = None"
proof -
  have u: "URL1 demo HOME \<noteq> None" "HOME \<noteq> []" by (simp_all add: HOME_def demo_url demo_chars)
  have v: "visited after_about = [(HOME, \<lparr>e_title = ''Home'', e_filename = ''home.html''\<rparr>),
                 (ABOUT, \<lparr>e_title = ''About'', e_filename = ''about.html''\<rparr>)]"
    and st: "site after_about = [''home.html'' \<mapsto> demo_toString home_saved,
              ''about.html'' \<mapsto> demo_toString about_saved]"
    by (simp_all add: after_about_def)
  have fp: "fix_pass demo (visited after_about) (visited after_about) (site after_about) = Some (site after_about)"
    apply (subst (2) v)
    apply (simp add: st fix_home fix_about)
    done
  have "clone demo two_pages HOME Map.empty Map.empty = Some (Done after_about)"
    using u(2) by (simp add: clone_def URL1_HOME home_url_def two_pages_loop fp)
  moreover have "ABOUT \<noteq> HOME" by (simp add: ABOUT_def HOME_def)
  ultimately show ?thesis
    by (simp add: v st home_saved_def)
qed

section \<open>The frontier\<close>

text \<open>
  C9, as the code has it. In every state the crawl reaches from its start, the queue holds
  no URL twice. An anchor pushes a URL only if, at that moment, the URL is neither a key of
  \<open>visited\<close> nor in the queue. The queue can hold a key of \<open>visited\<close>: a page is
  recorded only after its anchors were handled, so a URL of the queue that is visited
  after an iteration is the URL that iteration took from the queue, or was queued and
  visited before. When such a URL is taken from the queue, the iteration drops it and
  changes nothing else.
\<close>

theorem frontier_invariant:
  "distinct (queue ((iteration L E host ^^ k) (initial L START_URL site0 assets0)))
   \<and> (snd (rewrite_anchor L host vis urlObj a q) = q
       \<or> (\<exists>nh. snd (rewrite_anchor L host vis urlObj a q) = q @ [nh]
             \<and> \<not> map_has vis nh \<and> nh \<notin> set q))
   \<and> (\<forall>url rest u. queue s = url # rest \<and> u \<in> set (queue (iteration L E host s))
          \<and> map_has (visited (iteration L E host s)) u
        \<longrightarrow> u = url \<or> (u \<in> set rest \<and> map_has (visited s) u))
   \<and> (\<forall>url rest. queue s = url # rest \<and> map_has (visited s) url
        \<longrightarrow> iteration L E host s = s\<lparr>queue := rest\<rparr>)"
proof (intro conjI allI impI)
  show "distinct (queue ((iteration L E host ^^ k) (initial L START_URL site0 assets0)))"
    by (rule reachable_distinct)
  show "snd (rewrite_anchor L host vis urlObj a q) = q
       \<or> (\<exists>nh. snd (rewrite_anchor L host vis urlObj a q) = q @ [nh]
             \<and> \<not> map_has vis nh \<and> nh \<notin> set q)"
    by (rule rewrite_anchor_queue)
next
  fix url rest u
  assume a: "queue s = url # rest \<and> u \<in> set (queue (iteration L E host s))
          \<and> map_has (visited (iteration L E host s)) u"
  then have q: "queue s = url # rest" by simp
  from iteration_queue [OF q, of L E host] obtain new where
    new: "queue (iteration L E host s) = rest @ new"
      "\<forall>u \<in> set new. \<not> map_has (visited s) u \<and> u \<notin> set rest"
    by blast
  from iteration_visited [OF q, of L E host] a
  have "map_has (visited s) u \<or> u = url"
    by (auto simp: map_has_append)
  with a new show "u = url \<or> (u \<in> set rest \<and> map_has (visited s) u)"
    by auto
next
  fix url rest
  assume "queue s = url # rest \<and> map_has (visited s) url"
  then show "iteration L E host s = s\<lparr>queue := rest\<rparr>"
    by (simp add: iteration_def)
qed

lemma self_link_1:
  "iteration demo self_link_site ''localhost'' (initial demo HOME Map.empty Map.empty) = self_1"
  by (simp add: self_1_def run_defs sites demo_url demo_chars demo_text)

theorem frontier_invariant_witness:
  "distinct (queue ((iteration demo self_link_site ''localhost'' ^^ 1)
      (initial demo HOME Map.empty Map.empty)))
   \<and> queue (initial demo HOME Map.empty Map.empty) = [HOME]
   \<and> HOME \<in> set (queue (iteration demo self_link_site ''localhost''
        (initial demo HOME Map.empty Map.empty)))
   \<and> queue self_1 = [HOME] \<and> map_has (visited self_1) HOME
   \<and> iteration demo self_link_site ''localhost'' self_1 = self_1\<lparr>queue := []\<rparr>"
proof -
  have q0: "queue (initial demo HOME Map.empty Map.empty) = [HOME]"
    by (simp add: initial_def normalizeUrl_def URL1_HOME home_url_def url_toString_def clear_hash_def)
  have q1: "queue self_1 = [HOME]" and v1: "map_has (visited self_1) HOME"
    by (simp_all add: self_1_def map_has_def)
  from frontier_invariant [where L = demo and E = self_link_site and host = "''localhost''"
      and k = 1 and START_URL = HOME and ?site0.0 = Map.empty and ?assets0.0 = Map.empty
      and s = self_1]
  have d: "distinct (queue ((iteration demo self_link_site ''localhost'' ^^ 1)
      (initial demo HOME Map.empty Map.empty)))"
    and pop: "iteration demo self_link_site ''localhost'' self_1 = self_1\<lparr>queue := []\<rparr>"
    using q1 v1 by blast+
  from d q0 q1 v1 pop show ?thesis
    by (simp add: self_link_1)
qed

text \<open>
  C9 as the specification states it fails on a page that links to a heading of its own.
  The link resolves to the URL of the page, which is in scope, not in the queue any more,
  and not yet in \<open>visited\<close>; it is pushed, and the page is recorded afterwards. After
  the first iteration the queue holds a URL that is a key of \<open>visited\<close>.
\<close>

theorem self_link_stays_queued:
  "queue (iteration demo self_link_site ''localhost'' (initial demo HOME Map.empty Map.empty)) = [HOME]
   \<and> map_has (visited (iteration demo self_link_site ''localhost''
        (initial demo HOME Map.empty Map.empty))) HOME"
  by (simp add: self_link_1 self_1_def map_has_def)

section \<open>The scheduler\<close>

subsection \<open>Skipped pages\<close>







subsection \<open>The end of the loop\<close>

lemma iteration_decreases:
  assumes "\<forall>n f. write_ok E n f" and "running s"
  shows "(iteration L E host s, s)
     \<in> inv_image (less_than <*lex*> less_than)
          (\<lambda>s. (MAX_PAGES - length (visited s), length (queue s)))"
proof -
  from assms(2) obtain url rest where q: "queue s = url # rest"
    and cap: "length (visited s) < MAX_PAGES"
    by (cases "queue s") (auto simp: running_def)
  show ?thesis
  proof (cases "map_has (visited s) url")
    case True
    with q show ?thesis by (simp add: iteration_def)
  next
    case False
    show ?thesis
    proof (cases "goto E (length (fetched s)) url")
      case (Rendered d)
      let ?s' = "s\<lparr>queue := rest, fetched := fetched s @ [url]\<rparr>"
      have it: "iteration L E host s = visit L E host (length (fetched s)) ?s' url d"
        using q False Rendered by (simp add: iteration_def Let_def)
      show ?thesis
      proof (cases "URL1 L url")
        case None
        with it q show ?thesis
          by (simp add: visit_queue visit_visited persists_def)
      next
        case (Some urlObj)
        with assms(1) have "persists L E (length (fetched s)) (visited s) url d"
          by (simp add: persists_def)
        with it False have "length (visited (iteration L E host s)) = Suc (length (visited s))"
          by (simp add: visit_visited length_map_set)
        moreover have "MAX_PAGES - Suc (length (visited s)) < MAX_PAGES - length (visited s)"
          using cap by arith
        ultimately show ?thesis by simp
      qed
    qed (use q False in \<open>simp_all add: iteration_def Let_def\<close>)
  qed
qed

lemma crawl_order_wf:
  "wf (inv_image (less_than <*lex*> less_than)
         (\<lambda>s. (MAX_PAGES - length (visited s), length (queue s))))"
  by (intro wf_inv_image wf_lex_prod wf_less_than)

text \<open>
  C3, as the code has it. When the page files can be written, the crawl loop terminates:
  it returns the state after some number \<open>k\<close> of iterations. It goes on as long as the
  queue is not empty and fewer than 150 pages are recorded in \<open>visited\<close>, and it halts in
  the first state where the queue is empty or \<open>visited\<close> holds 150 pages. The cap counts
  the persisted pages; pages that were attempted and skipped do not count.
\<close>

theorem crawl_loop_halts:
  assumes "\<forall>n f. write_ok E n f"
  shows "\<exists>k. crawl_loop L E host s = Some ((iteration L E host ^^ k) s)
     \<and> (\<forall>j<k. queue ((iteration L E host ^^ j) s) \<noteq> []
             \<and> length (visited ((iteration L E host ^^ j) s)) < 150)
     \<and> (queue ((iteration L E host ^^ k) s) = []
         \<or> 150 \<le> length (visited ((iteration L E host ^^ k) s)))"
proof -
  have "\<exists>k. crawl_loop L E host s = Some ((iteration L E host ^^ k) s)
     \<and> (\<forall>j<k. running ((iteration L E host ^^ j) s))
     \<and> \<not> running ((iteration L E host ^^ k) s)"
  proof (induction s rule: wf_induct_rule [OF crawl_order_wf])
    case (1 s)
    show ?case
    proof (cases "running s")
      case False
      then have "crawl_loop L E host s = Some ((iteration L E host ^^ 0) s)
         \<and> (\<forall>j<0. running ((iteration L E host ^^ j) s))
         \<and> \<not> running ((iteration L E host ^^ 0) s)"
        by (simp add: crawl_loop_stop)
      then show ?thesis by blast
    next
      case True
      from "1.IH" [OF iteration_decreases [OF assms True]] obtain k where
        k: "crawl_loop L E host (iteration L E host s)
              = Some ((iteration L E host ^^ k) (iteration L E host s))"
          "\<forall>j<k. running ((iteration L E host ^^ j) (iteration L E host s))"
          "\<not> running ((iteration L E host ^^ k) (iteration L E host s))"
        by blast
      have shift: "(iteration L E host ^^ j) (iteration L E host s) = (iteration L E host ^^ Suc j) s" for j
        by (simp add: funpow_swap1)
      have "\<forall>j<Suc k. running ((iteration L E host ^^ j) s)"
      proof (intro allI impI)
        fix j assume "j < Suc k"
        then show "running ((iteration L E host ^^ j) s)"
          using True k(2) shift by (cases j) (simp_all del: funpow.simps)
      qed
      moreover have "crawl_loop L E host s = Some ((iteration L E host ^^ Suc k) s)"
        using True k(1) shift by (simp add: crawl_loop_step del: funpow.simps)
      moreover have "\<not> running ((iteration L E host ^^ Suc k) s)"
        using k(3) shift by (simp del: funpow.simps)
      ultimately show ?thesis by blast
    qed
  qed
  then show ?thesis
    by (simp add: running_def MAX_PAGES_def not_less)
qed

theorem crawl_loop_halts_witness:
  "(\<forall>n f. write_ok two_pages n f)
   \<and> (\<exists>k. crawl_loop demo two_pages ''localhost'' (initial demo HOME Map.empty Map.empty)
            = Some ((iteration demo two_pages ''localhost'' ^^ k)
                 (initial demo HOME Map.empty Map.empty))
         \<and> (queue ((iteration demo two_pages ''localhost'' ^^ k)
                 (initial demo HOME Map.empty Map.empty)) = []
             \<or> 150 \<le> length (visited ((iteration demo two_pages ''localhost'' ^^ k)
                 (initial demo HOME Map.empty Map.empty)))))
   \<and> crawl_loop demo two_pages ''localhost'' (initial demo HOME Map.empty Map.empty)
        = Some after_about
   \<and> queue after_about = []"
proof -
  have w: "\<forall>n f. write_ok two_pages n f" by (simp add: two_pages_def always_def)
  from crawl_loop_halts [OF w, of demo "''localhost''" "initial demo HOME Map.empty Map.empty"]
  have "\<exists>k. crawl_loop demo two_pages ''localhost'' (initial demo HOME Map.empty Map.empty)
            = Some ((iteration demo two_pages ''localhost'' ^^ k)
                 (initial demo HOME Map.empty Map.empty))
         \<and> (queue ((iteration demo two_pages ''localhost'' ^^ k)
                 (initial demo HOME Map.empty Map.empty)) = []
             \<or> 150 \<le> length (visited ((iteration demo two_pages ''localhost'' ^^ k)
                 (initial demo HOME Map.empty Map.empty))))"
    by blast
  with w show ?thesis by (simp add: two_pages_loop after_about_def)
qed

subsection \<open>A page with 151 broken links\<close>

lemma digit_char_cases:
  "digit_char d \<in> set ''0123456789''"
  by (simp add: digit_char_def)

lemma digit_char_facts [simp]:
  "digit_char d \<noteq> CHR ''#''" "digit_char d \<noteq> CHR ''/''" "digit_char d \<noteq> CHR ''-''"
  "path_char (digit_char d)" "is_hex (digit_char d)"
  using digit_char_cases [of d] by (auto simp: path_char_def is_hex_def is_alnum_def)

lemma literal_char_facts [simp]:
  "is_hex (CHR ''0'')" "\<not> is_hex (CHR ''/'')" "path_char (CHR ''0'')" "path_char (CHR ''/'')"
  by (simp_all add: is_hex_def path_char_def is_alnum_def)

lemma URL1_dead_link:
  "URL1 demo (dead_link i) =
     Some \<lparr>u_host = ''localhost'', u_pathname = ''/'' @ numbered_id i,
           u_base = dead_link i, u_fragment = None\<rparr>"
  by (simp add: dead_link_def numbered_id_def demo_url host_char_def is_alnum_def lower_char_def)

lemma URL2_dead_link:
  "URL2 demo (dead_link i) home_url = URL1 demo (dead_link i)"
  by (simp add: dead_link_def demo_def demo_URL2_def strip_prefix_def)

lemma in_scope_dead_link: "in_scope demo ''localhost'' (dead_link i) = Some True"
  by (simp add: in_scope_def isNotionPage_def URL1_dead_link remove_hyphens_def numbered_id_def)

lemma normalizeUrl_dead_link: "normalizeUrl demo (dead_link i) = dead_link i"
  by (simp add: normalizeUrl_def URL1_dead_link url_toString_def clear_hash_def)

lemma three_digits:
  fixes i :: nat
  assumes "i < 1000"
  shows "i = (i div 100 mod 10) * 100 + (i div 10 mod 10) * 10 + i mod 10"
proof -
  have a: "i = (i div 10) * 10 + i mod 10" by simp
  have b: "i div 10 = (i div 10 div 10) * 10 + i div 10 mod 10" by simp
  have c: "i div 10 div 10 = i div 100" by (simp add: div_mult2_eq)
  have d: "i div 100 mod 10 = i div 100" using assms by simp
  from a b c d show ?thesis by linarith
qed

lemma dead_link_inj:
  assumes "i < 1000" "j < 1000" "dead_link i = dead_link j"
  shows "i = j"
proof -
  from assms(3) have "digit_char (i div 100 mod 10) = digit_char (j div 100 mod 10)"
    "digit_char (i div 10 mod 10) = digit_char (j div 10 mod 10)"
    "digit_char (i mod 10) = digit_char (j mod 10)"
    by (simp_all add: dead_link_def numbered_id_def)
  then have "i div 100 mod 10 = j div 100 mod 10" "i div 10 mod 10 = j div 10 mod 10"
    "i mod 10 = j mod 10"
    by (auto intro: digit_char_inj)
  with three_digits [OF assms(1)] three_digits [OF assms(2)] show ?thesis by simp
qed

lemma dead_link_not_HOME: "dead_link i \<noteq> HOME"
  by (simp add: dead_link_def numbered_id_def HOME_def)

lemma demo_text_fields: "slugify demo = demo_slugify" "trim demo = demo_trim"
  by (simp_all add: demo_def)

lemma rewrite_dead_link:
  "rewrite_anchor demo ''localhost'' [] home_url (link (dead_link i) ''dead'') q =
     (link ''dead.html'' ''dead'', if dead_link i \<in> set q then q else q @ [dead_link i])"
proof -
  have "dead_link i \<noteq> []" by (simp add: dead_link_def)
  then show ?thesis
    by (simp add: rewrite_anchor_def link_def URL2_dead_link URL1_dead_link url_toString_def
      in_scope_dead_link normalizeUrl_dead_link mapped_name_def link_guess_def map_has_def
      demo_text_fields demo_text is_alnum_def is_space_def lower_char_def Let_def)
qed

lemma fan_out:
  "n \<le> 1000 \<Longrightarrow> m \<le> n \<Longrightarrow>
     snd (rewrite_anchors demo ''localhost'' [] home_url
            (map (\<lambda>i. link (dead_link i) ''dead'') [m..<n]) (map dead_link [0..<m]))
       = map dead_link [0..<n]"
proof (induction "n - m" arbitrary: m)
  case 0
  then show ?case by simp
next
  case (Suc k)
  then have mn: "m < n" by simp
  then have split: "[m..<n] = m # [Suc m..<n]" by (simp add: upt_rec)
  have fresh: "dead_link m \<notin> set (map dead_link [0..<m])"
  proof
    assume "dead_link m \<in> set (map dead_link [0..<m])"
    then obtain x where x: "x < m" "dead_link m = dead_link x" by auto
    from x(1) mn Suc.prems(1) have "m < 1000" "x < 1000" by simp_all
    from dead_link_inj [OF this x(2)] x(1) show False by simp
  qed
  have "k = n - Suc m" using Suc.hyps(2) by simp
  from Suc.hyps(1) [OF this Suc.prems(1)] mn
  have "snd (rewrite_anchors demo ''localhost'' [] home_url
            (map (\<lambda>i. link (dead_link i) ''dead'') [Suc m..<n]) (map dead_link [0..<Suc m]))
       = map dead_link [0..<n]" by simp
  with fresh show ?case
    by (simp add: split rewrite_dead_link case_prod_beta del: upt_Suc set_map map_append)
       (simp add: rewrite_dead_link)
qed

lemma iteration_skip:
  assumes "queue s = url # rest" "\<not> map_has (visited s) url"
    and "\<forall>d. goto E (length (fetched s)) url \<noteq> Rendered d"
  shows "iteration L E host s = s\<lparr>queue := rest, fetched := fetched s @ [url]\<rparr>"
  using assms by (cases "goto E (length (fetched s)) url") (simp_all add: iteration_def Let_def)

text \<open>A queue of pages that all fail is worked off to the end, whatever its length.\<close>

lemma all_fail:
  assumes "\<forall>u \<in> set (queue s). \<not> map_has (visited s) u \<and> (\<forall>n d. goto E n u \<noteq> Rendered d)"
    and "length (visited s) < MAX_PAGES"
  shows "crawl_loop L E host s = Some (s\<lparr>queue := [], fetched := fetched s @ queue s\<rparr>)"
  using assms
proof (induction "queue s" arbitrary: s)
  case Nil
  then have "\<not> running s" by (simp add: running_def)
  with Nil show ?case by (simp add: crawl_loop_stop)
next
  case (Cons url rest)
  let ?s' = "s\<lparr>queue := rest, fetched := fetched s @ [url]\<rparr>"
  from Cons.hyps(2) Cons.prems have run: "running s"
    by (simp add: running_def) (metis list.distinct(1))
  have it: "iteration L E host s = ?s'"
    using Cons.hyps(2) [symmetric] Cons.prems(1)
    by (intro iteration_skip) (simp_all add: Cons.hyps(2) [symmetric])
  have "crawl_loop L E host ?s' = Some (?s'\<lparr>queue := [], fetched := fetched ?s' @ queue ?s'\<rparr>)"
    using Cons.hyps(2) [symmetric] Cons.prems
    by (intro Cons.hyps(1)) simp_all
  with run it show ?case
    using Cons.hyps(2) [symmetric] by (simp add: crawl_loop_step)
qed

lemma initial_HOME:
  "initial demo HOME Map.empty Map.empty =
     \<lparr>queue = [HOME], visited = [], site = Map.empty, assets = Map.empty, fetched = [],
      downloads = []\<rparr>"
  by (simp add: initial_def normalizeUrl_def URL1_HOME home_url_def url_toString_def
      clear_hash_def)

lemma hub_first:
  "queue (iteration demo hub_site ''localhost'' (initial demo HOME Map.empty Map.empty))
     = map dead_link [0..<151]
   \<and> visited (iteration demo hub_site ''localhost'' (initial demo HOME Map.empty Map.empty))
     = [(HOME, \<lparr>e_title = ''Hub'', e_filename = ''hub.html''\<rparr>)]
   \<and> fetched (iteration demo hub_site ''localhost'' (initial demo HOME Map.empty Map.empty))
     = [HOME]"
proof -
  let ?s = "\<lparr>queue = [], visited = [], site = Map.empty, assets = Map.empty,
      fetched = [HOME], downloads = []\<rparr>"
  have it: "iteration demo hub_site ''localhost'' (initial demo HOME Map.empty Map.empty)
      = visit demo hub_site ''localhost'' 0 ?s HOME hub"
    by (simp add: initial_HOME iteration_def map_has_def hub_site_def)
  have title: "page_title demo hub = ''Hub''"
    by (simp add: page_title_def hub_def page_def demo_text_fields demo_text drop_suffix_def
        NOTION_SUFFIX_def is_space_def)
  have slug: "uniqueSlug demo ''Hub'' [] = ''hub''"
    by (simp add: uniqueSlug_def uniqueSlug_loop.simps demo_text_fields demo_text is_alnum_def
        is_space_def lower_char_def)
  have q: "queue (visit demo hub_site ''localhost'' 0 ?s HOME hub) = map dead_link [0..<151]"
    using fan_out [of 151 0] by (simp add: visit_queue URL1_HOME hub_def page_def)
  have v: "visited (visit demo hub_site ''localhost'' 0 ?s HOME hub)
      = [(HOME, \<lparr>e_title = ''Hub'', e_filename = ''hub.html''\<rparr>)]"
    by (simp add: visit_visited persists_def URL1_HOME hub_site_def always_def title slug
        map_set_def map_has_def)
  have f: "fetched (visit demo hub_site ''localhost'' 0 ?s HOME hub) = [HOME]"
    by (simp add: visit_fetched)
  from it q v f show ?thesis by simp
qed

text \<open>
  C3 as the specification states it fails on the hub page: all 151 linked pages are
  attempted, 152 visits in all with one page persisted, though the cap is 150. The loop
  did not halt when the number of attempted pages reached the cap.
\<close>

theorem cap_ignores_skipped_pages:
  "\<exists>s. crawl_loop demo hub_site ''localhost'' (initial demo HOME Map.empty Map.empty) = Some s
       \<and> fetched s = HOME # map dead_link [0..<151]
       \<and> length (fetched s) = 152 \<and> length (visited s) = 1 \<and> MAX_PAGES = 150"
proof -
  let ?s0 = "initial demo HOME Map.empty Map.empty"
  let ?s1 = "iteration demo hub_site ''localhost'' ?s0"
  have "running ?s0" by (simp add: initial_HOME running_def MAX_PAGES_def)
  then have step: "crawl_loop demo hub_site ''localhost'' ?s0 = crawl_loop demo hub_site ''localhost'' ?s1"
    by (rule crawl_loop_step)
  have g: "goto hub_site n u \<noteq> Rendered d" if "u \<noteq> HOME" for n u d
    using that by (simp add: hub_site_def)
  have "\<forall>u \<in> set (queue ?s1). \<not> map_has (visited ?s1) u \<and> (\<forall>n d. goto hub_site n u \<noteq> Rendered d)"
    using dead_link_not_HOME g by (auto simp: hub_first map_has_def)
  moreover have "length (visited ?s1) < MAX_PAGES"
    by (simp add: hub_first MAX_PAGES_def)
  ultimately have "crawl_loop demo hub_site ''localhost'' ?s1
      = Some (?s1\<lparr>queue := [], fetched := fetched ?s1 @ queue ?s1\<rparr>)"
    by (rule all_fail)
  with step show ?thesis
    by (simp add: hub_first MAX_PAGES_def)
qed

subsection \<open>A disk that is full\<close>

text \<open>
  The proviso on the page files is needed. A write that fails leaves the \<open>try\<close> after
  the anchors have pushed their URLs, and before the page is recorded. The page that links
  to itself is then queued again by each of its own visits, and the loop never ends.
\<close>

lemma self_anchor:
  "rewrite_anchor demo ''localhost'' [] home_url (link ''#contents'' ''Contents'') []
      = (link ''contents.html'' ''Contents'', [HOME])"
  by (simp add: rewrite_anchor_def link_def mapped_name_def link_guess_def map_has_def
      normalizeUrl_def in_scope_def isNotionPage_def remove_hyphens_def
      home_url_def HOME_def demo_url demo_chars demo_text)

lemma full_disk_step:
  assumes "queue s = [HOME]" and "visited s = []"
  shows "queue (iteration demo full_disk_site ''localhost'' s) = [HOME]
     \<and> visited (iteration demo full_disk_site ''localhost'' s) = []"
proof -
  let ?d = "page ''Home'' [link ''#contents'' ''Contents''] []"
  let ?s' = "s\<lparr>queue := [], fetched := fetched s @ [HOME]\<rparr>"
  have it: "iteration demo full_disk_site ''localhost'' s
      = visit demo full_disk_site ''localhost'' (length (fetched s)) ?s' HOME ?d"
    using assms by (simp add: iteration_def map_has_def full_disk_site_def Let_def)
  have "queue (visit demo full_disk_site ''localhost'' (length (fetched s)) ?s' HOME ?d) = [HOME]"
    using assms(2) by (simp add: visit_queue URL1_HOME page_def self_anchor)
  moreover have "visited (visit demo full_disk_site ''localhost'' (length (fetched s)) ?s' HOME ?d) = []"
    using assms(2) by (simp add: visit_visited persists_def full_disk_site_def never_def)
  ultimately show ?thesis using it by simp
qed

lemma full_disk_never_ends:
  "crawl_loop demo full_disk_site ''localhost'' (initial demo HOME Map.empty Map.empty) = None"
proof (cases "crawl_loop demo full_disk_site ''localhost'' (initial demo HOME Map.empty Map.empty)")
  case None
  then show ?thesis .
next
  case (Some y)
  let ?stuck = "\<lambda>L E host s. L = demo \<and> E = full_disk_site \<and> host = ''localhost''
      \<and> queue s = [HOME] \<and> visited s = []"
  have "\<not> ?stuck demo full_disk_site ''localhost'' (initial demo HOME Map.empty Map.empty)"
  proof (rule crawl_loop.raw_induct [where P = "\<lambda>L E host s y. \<not> ?stuck L E host s", OF _ Some])
    fix f L E host s and y :: crawl
    assume IH: "\<And>L E host s y. f L E host s = Some y \<Longrightarrow> \<not> ?stuck L E host s"
      and step: "(if running s then f L E host (iteration L E host s) else Some s) = Some y"
    show "\<not> ?stuck L E host s"
    proof
      assume stuck: "?stuck L E host s"
      then have "running s" by (simp add: running_def MAX_PAGES_def)
      with step have "f L E host (iteration L E host s) = Some y" by simp
      from IH [OF this] stuck full_disk_step [of s] show False by simp
    qed
  qed
  then show ?thesis by (simp add: initial_HOME)
qed



section \<open>The file name allocator\<close>

lemma strip_html_no_backslash:
  assumes "BACKSLASH \<notin> set s"
  shows "strip_html s = s"
proof (cases "6 \<le> length s \<and> s ! (length s - 6) = BACKSLASH")
  case True
  then have "s ! (length s - 6) \<in> set s"
    by (intro nth_mem) arith
  with True assms show ?thesis by simp
next
  case False
  then show ?thesis by (auto simp: strip_html_def Let_def)
qed

text \<open>
  What \<open>uniqueSlug\<close> computes on the file names the crawl produces, which contain no
  backslash: the suffix \<open>.html\<close> is never stripped, so the base slug is compared with
  whole file names, and it is returned unchanged unless it is itself one of them.
\<close>

lemma uniqueSlug_base:
  assumes "\<forall>v \<in> snd ` set m. BACKSLASH \<notin> set (e_filename v)"
    and "take 60 (or_page (slugify L title)) \<notin> e_filename ` snd ` set m"
  shows "uniqueSlug L title m = take 60 (or_page (slugify L title))"
proof -
  have "map (\<lambda>(k, v). strip_html (e_filename v)) m = map (\<lambda>(k, v). e_filename v) m"
    using assms(1) by (auto simp: strip_html_no_backslash)
  moreover have "take 60 (or_page (slugify L title)) \<notin> set (map (\<lambda>(k, v). e_filename v) m)"
    using assms(2) by (auto simp: image_iff)
  ultimately show ?thesis
    by (simp add: uniqueSlug_def Let_def uniqueSlug_loop.simps)
qed

lemma twins_step_1:
  "iteration demo twin_site ''localhost'' (initial demo HOME Map.empty Map.empty) = twins_1"
  by (simp add: twins_1_def twin_site_def run_defs sites demo_url demo_chars demo_text)

lemma twins_step_2: "iteration demo twin_site ''localhost'' twins_1 = twins_2"
  by (simp add: twins_1_def twins_2_def twin_site_def run_defs sites demo_url demo_chars demo_text)

text \<open>
  C4 does not hold of the code. \<open>uniqueSlug\<close> means to strip \<open>.html\<close> from the file
  names in use and to number the slug until it is free, but its pattern, spelled with two
  backslashes, asks for a backslash before \<open>html\<close>, and no file name has one. The names
  in use keep their suffix, the slug never equals one of them, and the loop never runs: a
  second and a third page titled \<open>Home\<close> get the slug \<open>home\<close> again, not \<open>home-2\<close>
  and \<open>home-3\<close>. In the crawl of the two pages titled \<open>Home\<close>, both entries of
  \<open>visited\<close> have the file name \<open>home.html\<close>, and the second page has overwritten the
  first.
\<close>

theorem same_title_same_filename:
  "strip_html ''home.html'' = ''home.html''
   \<and> uniqueSlug demo ''Home'' [] = ''home''
   \<and> uniqueSlug demo ''Home'' [(HOME, \<lparr>e_title = ''Home'', e_filename = ''home.html''\<rparr>)] = ''home''
   \<and> uniqueSlug demo ''Home'' [(HOME, \<lparr>e_title = ''Home'', e_filename = ''home.html''\<rparr>),
        (ABOUT, \<lparr>e_title = ''Home'', e_filename = ''home.html''\<rparr>)] = ''home''
   \<and> crawl_loop demo twin_site ''localhost'' (initial demo HOME Map.empty Map.empty) = Some twins_2
   \<and> map (\<lambda>(u, e). e_filename e) (visited twins_2) = [''home.html'', ''home.html'']
   \<and> site twins_2 ''home.html'' = Some (demo_toString (saved ''Home'' []))"
proof -
  have slugs: "strip_html ''home.html'' = ''home.html''
   \<and> uniqueSlug demo ''Home'' [] = ''home''
   \<and> uniqueSlug demo ''Home'' [(HOME, \<lparr>e_title = ''Home'', e_filename = ''home.html''\<rparr>)] = ''home''
   \<and> uniqueSlug demo ''Home'' [(HOME, \<lparr>e_title = ''Home'', e_filename = ''home.html''\<rparr>),
        (ABOUT, \<lparr>e_title = ''Home'', e_filename = ''home.html''\<rparr>)] = ''home''"
    by (simp add: uniqueSlug_def uniqueSlug_loop.simps strip_html_def demo_text_fields demo_text
        is_alnum_def is_space_def lower_char_def BACKSLASH_def)
  have "running (initial demo HOME Map.empty Map.empty)"
    by (simp add: initial_HOME running_def MAX_PAGES_def)
  moreover have "running twins_1" "\<not> running twins_2"
    by (simp_all add: twins_1_def twins_2_def running_def MAX_PAGES_def)
  ultimately have "crawl_loop demo twin_site ''localhost'' (initial demo HOME Map.empty Map.empty)
      = Some twins_2"
    by (simp add: crawl_loop_step crawl_loop_stop twins_step_1 twins_step_2)
  with slugs show ?thesis by (simp add: twins_2_def)
qed


section \<open>The asset fetcher\<close>

lemma requested_absent:
  "u \<in> set (requested L urlObj fs srcs) \<Longrightarrow> fs (assetFilename L u) = None"
  by (auto simp: requested_def List.map_filter_def split: option.splits if_splits)

lemma requested_Cons:
  "requested L urlObj fs (src # srcs) =
     (case URL2 L src urlObj of
        None \<Rightarrow> requested L urlObj fs srcs
      | Some r \<Rightarrow>
          if fs (assetFilename L (url_toString r)) = None
          then url_toString r # requested L urlObj fs srcs
          else requested L urlObj fs srcs)"
  by (simp add: requested_def List.map_filter_def split: option.splits)

lemma local_names_Cons:
  "local_names L urlObj (src # srcs) =
     (case URL2 L src urlObj of
        None \<Rightarrow> local_names L urlObj srcs
      | Some r \<Rightarrow> assetFilename L (url_toString r) # local_names L urlObj srcs)"
  by (simp add: local_names_def List.map_filter_def split: option.splits)

lemma kept_or_local_refl: "kept_or_local names imgs imgs"
  by (simp add: kept_or_local_def list_all2_same)

lemma kept_or_local_mono:
  "kept_or_local names old new \<Longrightarrow> set names \<subseteq> set names' \<Longrightarrow> kept_or_local names' old new"
  unfolding kept_or_local_def by (erule list_all2_mono) auto

lemma kept_or_local_rewrite:
  assumes "kept_or_local names old mid" and "name \<in> set names"
  shows "kept_or_local names old (rewrite_src src name mid)"
  using assms unfolding kept_or_local_def rewrite_src_def
  by (auto simp: list_all2_conv_all_nth)

lemma start_images_pending:
  "start_images L urlObj fs srcs imgs k = (imgs', ps) \<Longrightarrow>
     map p_url ps = requested L urlObj fs srcs
     \<and> map p_index ps = [k..<k + length ps]
     \<and> (\<forall>p \<in> set ps. p_name p = assetFilename L (p_url p)
           \<and> p_name p \<in> set (local_names L urlObj srcs))"
proof (induction srcs arbitrary: imgs k imgs' ps)
  case Nil
  then show ?case by (simp add: requested_def List.map_filter_def)
next
  case (Cons src srcs)
  show ?case
  proof (cases "URL2 L src urlObj")
    case None
    with Cons.prems have "start_images L urlObj fs srcs imgs k = (imgs', ps)" by simp
    from Cons.IH [OF this] None show ?thesis
      by (auto simp: requested_Cons local_names_Cons)
  next
    case (Some r)
    show ?thesis
    proof (cases "fs (assetFilename L (url_toString r)) = None")
      case False
      with Some Cons.prems have "start_images L urlObj fs srcs
          (rewrite_src src (assetFilename L (url_toString r)) imgs) k = (imgs', ps)"
        by (simp add: Let_def)
      from Cons.IH [OF this] Some False show ?thesis
        by (auto simp: requested_Cons local_names_Cons)
    next
      case True
      obtain imgs1 ps1 where rec: "start_images L urlObj fs srcs imgs (Suc k) = (imgs1, ps1)"
        by (cases "start_images L urlObj fs srcs imgs (Suc k)")
      with Some True Cons.prems have ps: "ps = \<lparr>p_index = k, p_src = src,
          p_url = url_toString r, p_name = assetFilename L (url_toString r)\<rparr> # ps1"
        by (simp add: Let_def)
      from Cons.IH [OF rec] Some True ps show ?thesis
        by (auto simp: requested_Cons local_names_Cons upt_rec [of k])
    qed
  qed
qed

lemma start_images_imgs:
  "start_images L urlObj fs srcs imgs k = (imgs', ps) \<Longrightarrow> kept_or_local names old imgs
     \<Longrightarrow> set (local_names L urlObj srcs) \<subseteq> set names \<Longrightarrow> kept_or_local names old imgs'"
proof (induction srcs arbitrary: imgs k imgs' ps)
  case Nil
  then show ?case by simp
next
  case (Cons src srcs)
  show ?case
  proof (cases "URL2 L src urlObj")
    case None
    with Cons.prems have "start_images L urlObj fs srcs imgs k = (imgs', ps)" by simp
    from Cons.IH [OF this Cons.prems(2)] Cons.prems(3) None show ?thesis
      by (simp add: local_names_Cons)
  next
    case (Some r)
    from Some Cons.prems(3) have sub: "set (local_names L urlObj srcs) \<subseteq> set names"
      and mem: "assetFilename L (url_toString r) \<in> set names"
      by (simp_all add: local_names_Cons)
    show ?thesis
    proof (cases "fs (assetFilename L (url_toString r)) = None")
      case False
      with Some Cons.prems have "start_images L urlObj fs srcs
          (rewrite_src src (assetFilename L (url_toString r)) imgs) k = (imgs', ps)"
        by (simp add: Let_def)
      from Cons.IH [OF this kept_or_local_rewrite [OF Cons.prems(2) mem] sub] show ?thesis .
    next
      case True
      obtain imgs1 ps1 where rec: "start_images L urlObj fs srcs imgs (Suc k) = (imgs1, ps1)"
        by (cases "start_images L urlObj fs srcs imgs (Suc k)")
      with Some True Cons.prems have "imgs' = imgs1" by (simp add: Let_def)
      with Cons.IH [OF rec Cons.prems(2) sub] show ?thesis by simp
    qed
  qed
qed

lemma finish_images_imgs:
  "finish_images E ps imgs fs = (imgs', fs') \<Longrightarrow> kept_or_local names old imgs
     \<Longrightarrow> \<forall>p \<in> set ps. p_name p \<in> set names \<Longrightarrow> kept_or_local names old imgs'"
proof (induction ps arbitrary: imgs fs)
  case Nil
  then show ?case by simp
next
  case (Cons p ps)
  show ?case
  proof (cases "axios_get E (p_index p) (p_url p)")
    case None
    with Cons.prems have "finish_images E ps imgs fs = (imgs', fs')" by simp
    from Cons.IH [OF this Cons.prems(2)] Cons.prems(3) show ?thesis by simp
  next
    case (Some d)
    with Cons.prems have "finish_images E ps (rewrite_src (p_src p) (p_name p) imgs)
        (fs(p_name p \<mapsto> d)) = (imgs', fs')" by simp
    moreover from Cons.prems have "kept_or_local names old (rewrite_src (p_src p) (p_name p) imgs)"
      by (intro kept_or_local_rewrite) simp_all
    ultimately show ?thesis using Cons.prems(3) by (intro Cons.IH) simp_all
  qed
qed

text \<open>What the pending downloads do to the asset directory, whatever their order.\<close>

lemma finish_images_untouched:
  "finish_images E ps imgs fs = (imgs', fs') \<Longrightarrow>
     \<forall>p \<in> set ps. p_name p = n \<longrightarrow> axios_get E (p_index p) (p_url p) = None \<Longrightarrow> fs' n = fs n"
proof (induction ps arbitrary: imgs fs)
  case Nil
  then show ?case by simp
next
  case (Cons p ps)
  then show ?case
    by (cases "axios_get E (p_index p) (p_url p)") (auto split: if_splits)
qed

lemma finish_images_content:
  "finish_images E ps imgs fs = (imgs', fs') \<Longrightarrow> fs' n = Some data \<Longrightarrow>
     fs n = Some data
     \<or> (\<exists>p \<in> set ps. p_name p = n \<and> axios_get E (p_index p) (p_url p) = Some data)"
proof (induction ps arbitrary: imgs fs)
  case Nil
  then show ?case by simp
next
  case (Cons p ps)
  show ?case
  proof (cases "axios_get E (p_index p) (p_url p)")
    case None
    with Cons.prems have "finish_images E ps imgs fs = (imgs', fs')" by simp
    from Cons.IH [OF this Cons.prems(2)] show ?thesis by auto
  next
    case (Some d)
    with Cons.prems have "finish_images E ps (rewrite_src (p_src p) (p_name p) imgs)
        (fs(p_name p \<mapsto> d)) = (imgs', fs')" by simp
    from Cons.IH [OF this Cons.prems(2)] Some show ?thesis
      by (auto split: if_splits)
  qed
qed

lemma finish_images_written:
  "finish_images E ps imgs fs = (imgs', fs') \<Longrightarrow>
     fs n \<noteq> None \<or> (\<exists>p \<in> set ps. p_name p = n \<and> axios_get E (p_index p) (p_url p) \<noteq> None)
     \<Longrightarrow> fs' n \<noteq> None"
proof (induction ps arbitrary: imgs fs)
  case Nil
  then show ?case by simp
next
  case (Cons p ps)
  show ?case
  proof (cases "axios_get E (p_index p) (p_url p)")
    case None
    with Cons.prems have "finish_images E ps imgs fs = (imgs', fs')" by simp
    moreover from Cons.prems(2) None have "fs n \<noteq> None
        \<or> (\<exists>p \<in> set ps. p_name p = n \<and> axios_get E (p_index p) (p_url p) \<noteq> None)"
      by auto
    ultimately show ?thesis by (rule Cons.IH)
  next
    case (Some d)
    with Cons.prems have "finish_images E ps (rewrite_src (p_src p) (p_name p) imgs)
        (fs(p_name p \<mapsto> d)) = (imgs', fs')" by simp
    moreover from Cons.prems(2) have "(fs(p_name p \<mapsto> d)) n \<noteq> None
        \<or> (\<exists>p \<in> set ps. p_name p = n \<and> axios_get E (p_index p) (p_url p) \<noteq> None)"
      by auto
    ultimately show ?thesis by (rule Cons.IH)
  qed
qed

lemma set_arrival_order: "set (arrival_order E ps) = set ps"
  by (simp add: arrival_order_def)


lemma requested_member:
  "src \<in> set srcs \<Longrightarrow> URL2 L src urlObj = Some r
     \<Longrightarrow> fs (assetFilename L (url_toString r)) = None
     \<Longrightarrow> url_toString r \<in> set (requested L urlObj fs srcs)"
  by (force simp: requested_def List.map_filter_def image_iff)

text \<open>The image block of one page, for any sources and any order of the answers.\<close>

lemma process_images_effect:
  assumes run: "process_images L E urlObj srcs imgs fs dl = (imgs', fs', dl')"
  shows "dl' = dl @ requested L urlObj fs srcs"
    and "kept_or_local (local_names L urlObj srcs) imgs imgs'"
    and "fs n \<noteq> None \<Longrightarrow> fs' n = fs n"
    and "fs n = None \<Longrightarrow> fs' n = Some data \<Longrightarrow>
          \<exists>j. length dl \<le> j \<and> j < length dl' \<and> assetFilename L (dl' ! j) = n
            \<and> axios_get E j (dl' ! j) = Some data"
    and "fs n = None \<Longrightarrow>
          fs' n = None \<longleftrightarrow>
            (\<forall>j. length dl \<le> j \<and> j < length dl' \<and> assetFilename L (dl' ! j) = n
                \<longrightarrow> axios_get E j (dl' ! j) = None)"
proof -
  obtain imgs1 ps where st: "start_images L urlObj fs srcs imgs (length dl) = (imgs1, ps)"
    by (cases "start_images L urlObj fs srcs imgs (length dl)")
  obtain imgs2 fs2 where fin: "finish_images E (arrival_order E ps) imgs1 fs = (imgs2, fs2)"
    by (cases "finish_images E (arrival_order E ps) imgs1 fs")
  from run st fin have eq: "imgs' = imgs2" "fs' = fs2" "dl' = dl @ map p_url ps"
    by (simp_all add: process_images_def)
  note P = start_images_pending [OF st]
  from P have urls: "map p_url ps = requested L urlObj fs srcs" by simp
  from P have idx: "map p_index ps = [length dl..<length dl + length ps]" by simp
  from P have names: "\<forall>p \<in> set ps. p_name p = assetFilename L (p_url p)" by blast
  from P have local: "\<forall>p \<in> set ps. p_name p \<in> set (local_names L urlObj srcs)" by blast
  have absent: "fs (p_name p) = None" if "p \<in> set ps" for p
  proof -
    from that have "p_url p \<in> set (requested L urlObj fs srcs)"
      unfolding urls [symmetric] by simp
    with names that show ?thesis by (simp add: requested_absent)
  qed
  have at: "p_index (ps ! i) = length dl + i \<and> p_url (ps ! i) = dl' ! (length dl + i)"
    if "i < length ps" for i
  proof -
    from that have "p_index (ps ! i) = map p_index ps ! i" by simp
    also from that have "\<dots> = length dl + i" unfolding idx by simp
    finally show ?thesis using that by (simp add: eq nth_append)
  qed
  have pending: "\<exists>j. length dl \<le> j \<and> j < length dl' \<and> p_index p = j \<and> p_url p = dl' ! j"
    if "p \<in> set ps" for p
  proof -
    from that obtain i where "i < length ps" "p = ps ! i" by (auto simp: in_set_conv_nth)
    with at [of i] show ?thesis by (intro exI [of _ "length dl + i"]) (simp add: eq)
  qed
  have logged: "ps ! (j - length dl) \<in> set ps \<and> p_index (ps ! (j - length dl)) = j
      \<and> p_url (ps ! (j - length dl)) = dl' ! j"
    if "length dl \<le> j" "j < length dl'" for j
  proof -
    from that have "j - length dl < length ps" by (simp add: eq)
    with at [of "j - length dl"] that show ?thesis by simp
  qed
  show "dl' = dl @ requested L urlObj fs srcs" by (simp add: eq urls)
  show "kept_or_local (local_names L urlObj srcs) imgs imgs'"
    unfolding eq
    by (rule finish_images_imgs [OF fin start_images_imgs [OF st kept_or_local_refl subset_refl]])
      (simp add: set_arrival_order local)
  show "fs' n = fs n" if "fs n \<noteq> None"
    unfolding eq
    by (rule finish_images_untouched [OF fin]) (use that absent in \<open>auto simp: set_arrival_order\<close>)
  show "\<exists>j. length dl \<le> j \<and> j < length dl' \<and> assetFilename L (dl' ! j) = n
      \<and> axios_get E j (dl' ! j) = Some data" if "fs n = None" "fs' n = Some data"
  proof -
    from finish_images_content [OF fin, of n data] that
    obtain p where p: "p \<in> set ps" "p_name p = n"
        "axios_get E (p_index p) (p_url p) = Some data"
      by (auto simp: eq set_arrival_order)
    from pending [OF p(1)] obtain j where "length dl \<le> j" "j < length dl'" "p_index p = j"
        "p_url p = dl' ! j" by blast
    with p names show ?thesis by (intro exI [of _ j]) auto
  qed
  show "fs' n = None \<longleftrightarrow>
      (\<forall>j. length dl \<le> j \<and> j < length dl' \<and> assetFilename L (dl' ! j) = n
          \<longrightarrow> axios_get E j (dl' ! j) = None)" if none: "fs n = None"
  proof
    assume nofile: "fs' n = None"
    show "\<forall>j. length dl \<le> j \<and> j < length dl' \<and> assetFilename L (dl' ! j) = n
        \<longrightarrow> axios_get E j (dl' ! j) = None"
    proof (intro allI impI, elim conjE)
      fix j assume j: "length dl \<le> j" "j < length dl'" "assetFilename L (dl' ! j) = n"
      let ?p = "ps ! (j - length dl)"
      from logged [OF j(1,2)] have p: "?p \<in> set ps" "p_index ?p = j" "p_url ?p = dl' ! j"
        by simp_all
      with names j(3) have "p_name ?p = n" by simp
      show "axios_get E j (dl' ! j) = None"
      proof (rule ccontr)
        assume "axios_get E j (dl' ! j) \<noteq> None"
        with p \<open>p_name ?p = n\<close>
        have "\<exists>p \<in> set (arrival_order E ps). p_name p = n
            \<and> axios_get E (p_index p) (p_url p) \<noteq> None"
          unfolding set_arrival_order by (intro bexI [of _ ?p]) simp_all
        with finish_images_written [OF fin, of n] nofile show False by (simp add: eq)
      qed
    qed
  next
    assume all: "\<forall>j. length dl \<le> j \<and> j < length dl' \<and> assetFilename L (dl' ! j) = n
        \<longrightarrow> axios_get E j (dl' ! j) = None"
    have "\<forall>p \<in> set (arrival_order E ps). p_name p = n
        \<longrightarrow> axios_get E (p_index p) (p_url p) = None"
    proof (intro ballI impI)
      fix p assume p: "p \<in> set (arrival_order E ps)" "p_name p = n"
      then have mem: "p \<in> set ps" by (simp add: set_arrival_order)
      from pending [OF mem] obtain j where j: "length dl \<le> j" "j < length dl'"
          "p_index p = j" "p_url p = dl' ! j" by blast
      with names mem p(2) have "assetFilename L (dl' ! j) = n" by auto
      with all j show "axios_get E (p_index p) (p_url p) = None" by simp
    qed
    from finish_images_untouched [OF fin this] none show "fs' n = None" by (simp add: eq)
  qed
qed

lemma process_one_image:
  assumes "URL2 L src urlObj = Some r"
  shows "process_images L E urlObj [src] imgs fs dl =
     (if fs (assetFilename L (url_toString r)) \<noteq> None
      then (rewrite_src src (assetFilename L (url_toString r)) imgs, fs, dl)
      else
        (case axios_get E (length dl) (url_toString r) of
           None \<Rightarrow> (imgs, fs, dl @ [url_toString r])
         | Some data \<Rightarrow>
             (rewrite_src src (assetFilename L (url_toString r)) imgs,
              fs(assetFilename L (url_toString r) \<mapsto> data), dl @ [url_toString r])))"
  using assms by (simp add: process_images_def arrival_order_def Let_def split: option.splits)

text \<open>
  C7, as the code has it. The file name of an asset is a function \<open>assetFilename\<close> of its
  URL string alone, and an \<open>img\<close> is only ever rewritten to \<open>assets/\<close> followed by the
  derived name of one of the page's sources. For the image block of one page, with any
  list of sources and any order of arrival of the answers: a download is requested for
  exactly the sources that resolve and whose file does not exist when the block starts,
  once each, in the order of the sources; a file that existed is left as it was; a file
  that appears holds the bytes of a successful download, by this page, of a URL of that
  name; and no file appears exactly when each such download failed. Hence for the block of
  any later page: a URL whose file now exists is not downloaded again and its file is not
  written again, and a source whose file still does not exist is downloaded again. For a
  page with a single image the outcome is given in full.
\<close>

theorem asset_fetched_twice:
  assumes "process_images L E urlObj srcs imgs fs dl = (imgs', fs', dl')"
  shows "dl' = dl @ requested L urlObj fs srcs
     \<and> kept_or_local (local_names L urlObj srcs) imgs imgs'
     \<and> (\<forall>n. fs n \<noteq> None \<longrightarrow> fs' n = fs n)
     \<and> (\<forall>n data. fs n = None \<and> fs' n = Some data \<longrightarrow>
          (\<exists>j. length dl \<le> j \<and> j < length dl' \<and> assetFilename L (dl' ! j) = n
             \<and> axios_get E j (dl' ! j) = Some data))
     \<and> (\<forall>n. fs n = None \<longrightarrow>
          (fs' n = None \<longleftrightarrow>
             (\<forall>j. length dl \<le> j \<and> j < length dl' \<and> assetFilename L (dl' ! j) = n
                 \<longrightarrow> axios_get E j (dl' ! j) = None)))
     \<and> (\<forall>urlObj2 srcs2 imgs2 imgs2' fs2 dl2.
          process_images L E urlObj2 srcs2 imgs2 fs' dl' = (imgs2', fs2, dl2) \<longrightarrow>
            length dl' \<le> length dl2
            \<and> (\<forall>u. fs' (assetFilename L u) \<noteq> None \<longrightarrow>
                  u \<notin> set (drop (length dl') dl2)
                  \<and> fs2 (assetFilename L u) = fs' (assetFilename L u))
            \<and> (\<forall>src r. src \<in> set srcs2 \<and> URL2 L src urlObj2 = Some r
                  \<and> fs' (assetFilename L (url_toString r)) = None \<longrightarrow>
                  url_toString r \<in> set (drop (length dl') dl2)))
     \<and> (\<forall>src r. srcs = [src] \<and> URL2 L src urlObj = Some r \<longrightarrow>
          (imgs', fs', dl') =
            (if fs (assetFilename L (url_toString r)) \<noteq> None
             then (rewrite_src src (assetFilename L (url_toString r)) imgs, fs, dl)
             else
               (case axios_get E (length dl) (url_toString r) of
                  None \<Rightarrow> (imgs, fs, dl @ [url_toString r])
                | Some data \<Rightarrow>
                    (rewrite_src src (assetFilename L (url_toString r)) imgs,
                     fs(assetFilename L (url_toString r) \<mapsto> data), dl @ [url_toString r]))))"
proof (intro conjI allI impI)
  note E = process_images_effect [OF assms]
  show "dl' = dl @ requested L urlObj fs srcs" by (rule E(1))
  show "kept_or_local (local_names L urlObj srcs) imgs imgs'" by (rule E(2))
  show "fs' n = fs n" if "fs n \<noteq> None" for n using that by (rule E(3))
  show "\<exists>j. length dl \<le> j \<and> j < length dl' \<and> assetFilename L (dl' ! j) = n
      \<and> axios_get E j (dl' ! j) = Some data" if "fs n = None \<and> fs' n = Some data" for n data
    using that by (intro E(4)) simp_all
  show "fs' n = None \<longleftrightarrow>
      (\<forall>j. length dl \<le> j \<and> j < length dl' \<and> assetFilename L (dl' ! j) = n
          \<longrightarrow> axios_get E j (dl' ! j) = None)" if "fs n = None" for n
    using that by (rule E(5))
next
  fix urlObj2 srcs2 imgs2 imgs2' fs2 dl2
  assume next_page: "process_images L E urlObj2 srcs2 imgs2 fs' dl' = (imgs2', fs2, dl2)"
  note N = process_images_effect [OF next_page]
  show "length dl' \<le> length dl2" by (simp add: N(1))
  {
    fix u assume there: "fs' (assetFilename L u) \<noteq> None"
    then show "u \<notin> set (drop (length dl') dl2)"
      using requested_absent [of u L urlObj2 fs' srcs2] by (auto simp: N(1))
    from there show "fs2 (assetFilename L u) = fs' (assetFilename L u)" by (rule N(3))
  }
  {
    fix src r
    assume "src \<in> set srcs2 \<and> URL2 L src urlObj2 = Some r
        \<and> fs' (assetFilename L (url_toString r)) = None"
    then have "url_toString r \<in> set (requested L urlObj2 fs' srcs2)"
      by (intro requested_member [of src]) simp_all
    then show "url_toString r \<in> set (drop (length dl') dl2)"
      by (simp add: N(1))
  }
next
  fix src r assume "srcs = [src] \<and> URL2 L src urlObj = Some r"
  with assms show "(imgs', fs', dl') =
            (if fs (assetFilename L (url_toString r)) \<noteq> None
             then (rewrite_src src (assetFilename L (url_toString r)) imgs, fs, dl)
             else
               (case axios_get E (length dl) (url_toString r) of
                  None \<Rightarrow> (imgs, fs, dl @ [url_toString r])
                | Some data \<Rightarrow>
                    (rewrite_src src (assetFilename L (url_toString r)) imgs,
                     fs(assetFilename L (url_toString r) \<mapsto> data), dl @ [url_toString r])))"
    using process_one_image [of L src urlObj r E imgs fs dl] by simp
qed


lemma assetFilename_LOGO: "assetFilename demo LOGO = ''aHR0cDovL2xvY2FsaG9zdC9p.bin''"
  by (simp add: assetFilename_def LOGO_def demo_def b64_char_def match_ext_def ext_tail_def
      before_char_def is_alnum_def BACKSLASH_def Let_def)

lemma URL2_logo:
  "URL2 demo ''/img/logo'' home_url = Some logo_url"
  "URL2 demo ''/img/logo'' about_url = Some logo_url"
  "URL2 demo LOGO home_url = Some logo_url"
  by (simp_all add: logo_url_def LOGO_def home_url_def about_url_def HOME_def ABOUT_def
      demo_url demo_chars)

lemma logo_url_toString: "url_toString logo_url = LOGO"
  by (simp add: url_toString_def logo_url_def)

theorem asset_fetched_twice_witness:
  "process_images demo logo_site home_url [''/img/logo''] [\<lparr>i_src = Some ''/img/logo''\<rparr>]
       Map.empty []
     = ([\<lparr>i_src = Some ''assets/aHR0cDovL2xvY2FsaG9zdC9p.bin''\<rparr>],
        [''aHR0cDovL2xvY2FsaG9zdC9p.bin'' \<mapsto> ''bytes of request 0''], [LOGO])
   \<and> requested demo home_url Map.empty [''/img/logo''] = [LOGO]
   \<and> process_images demo logo_site about_url [''/img/logo''] [\<lparr>i_src = Some ''/img/logo''\<rparr>]
       [''aHR0cDovL2xvY2FsaG9zdC9p.bin'' \<mapsto> ''bytes of request 0''] [LOGO]
     = ([\<lparr>i_src = Some ''assets/aHR0cDovL2xvY2FsaG9zdC9p.bin''\<rparr>],
        [''aHR0cDovL2xvY2FsaG9zdC9p.bin'' \<mapsto> ''bytes of request 0''], [LOGO])
   \<and> requested demo about_url [''aHR0cDovL2xvY2FsaG9zdC9p.bin'' \<mapsto> ''bytes of request 0'']
       [''/img/logo''] = []"
proof -
  let ?name = "''aHR0cDovL2xvY2FsaG9zdC9p.bin''"
  let ?imgs = "[\<lparr>i_src = Some ''/img/logo''\<rparr>]"
  let ?local = "[\<lparr>i_src = Some (''assets/'' @ ?name)\<rparr>]"
  let ?fs = "[?name \<mapsto> ''bytes of request 0'']"
  have get: "axios_get logo_site 0 LOGO = Some ''bytes of request 0''"
    by (simp add: logo_site_def numbered_bytes_def decimal.simps digit_char_def)
  have req1: "requested demo home_url Map.empty [''/img/logo''] = [LOGO]"
    by (simp add: requested_def List.map_filter_def URL2_logo logo_url_toString)
  have req2: "requested demo about_url ?fs [''/img/logo''] = []"
    by (simp add: requested_def List.map_filter_def URL2_logo logo_url_toString
        assetFilename_LOGO)
  obtain imgs1 fs1 dl1 where 1:
    "process_images demo logo_site home_url [''/img/logo''] ?imgs Map.empty [] = (imgs1, fs1, dl1)"
    by (metis prod_cases3)
  note first = asset_fetched_twice [OF 1]
  from first have "dl1 = [] @ requested demo home_url Map.empty [''/img/logo'']"
    by (rule conjunct1)
  with req1 have dl1: "dl1 = [LOGO]" by simp
  from first [THEN conjunct2, THEN conjunct2, THEN conjunct2, THEN conjunct2, THEN conjunct2,
      THEN conjunct2, rule_format, of "''/img/logo''" logo_url] URL2_logo(1) get
  have page1: "imgs1 = ?local \<and> fs1 = ?fs"
    by (simp add: logo_url_toString assetFilename_LOGO rewrite_src_def)
  obtain imgs2 fs2 dl2 where 2:
    "process_images demo logo_site about_url [''/img/logo''] ?imgs ?fs [LOGO] = (imgs2, fs2, dl2)"
    by (metis prod_cases3)
  note second = asset_fetched_twice [OF 2]
  from second have "dl2 = [LOGO] @ requested demo about_url ?fs [''/img/logo'']"
    by (rule conjunct1)
  with req2 have dl2: "dl2 = [LOGO]" by simp
  from second [THEN conjunct2, THEN conjunct2, THEN conjunct2, THEN conjunct2, THEN conjunct2,
      THEN conjunct2, rule_format, of "''/img/logo''" logo_url] URL2_logo(2)
  have page2: "imgs2 = ?local \<and> fs2 = ?fs"
    by (simp add: logo_url_toString assetFilename_LOGO rewrite_src_def)
  from 1 2 dl1 dl2 page1 page2 req1 req2 show ?thesis by simp
qed

text \<open>
  C7 as the specification states it fails in two ways. When the downloads fail, two
  fetches of the logo are two requests and no file. And the fetches of one page all look
  for their file before any of them writes: a page that refers to the logo as
  \<open>/img/logo\<close> and by its full URL downloads it twice, and the later answer replaces the
  file of the earlier one, whichever of the two requests that is.
\<close>

theorem asset_downloaded_twice:
  "process_images demo two_pages home_url [''/img/logo''] [\<lparr>i_src = Some ''/img/logo''\<rparr>]
       Map.empty []
     = ([\<lparr>i_src = Some ''/img/logo''\<rparr>], Map.empty, [LOGO])
   \<and> process_images demo two_pages about_url [''/img/logo''] [\<lparr>i_src = Some ''/img/logo''\<rparr>]
       Map.empty [LOGO]
     = ([\<lparr>i_src = Some ''/img/logo''\<rparr>], Map.empty, [LOGO, LOGO])
   \<and> process_images demo logo_site home_url [''/img/logo'', LOGO]
       [\<lparr>i_src = Some ''/img/logo''\<rparr>, \<lparr>i_src = Some LOGO\<rparr>] Map.empty []
     = ([\<lparr>i_src = Some ''assets/aHR0cDovL2xvY2FsaG9zdC9p.bin''\<rparr>,
         \<lparr>i_src = Some ''assets/aHR0cDovL2xvY2FsaG9zdC9p.bin''\<rparr>],
        [''aHR0cDovL2xvY2FsaG9zdC9p.bin'' \<mapsto> ''bytes of request 1''], [LOGO, LOGO])
   \<and> process_images demo logo_site_reversed home_url [''/img/logo'', LOGO]
       [\<lparr>i_src = Some ''/img/logo''\<rparr>, \<lparr>i_src = Some LOGO\<rparr>] Map.empty []
     = ([\<lparr>i_src = Some ''assets/aHR0cDovL2xvY2FsaG9zdC9p.bin''\<rparr>,
         \<lparr>i_src = Some ''assets/aHR0cDovL2xvY2FsaG9zdC9p.bin''\<rparr>],
        [''aHR0cDovL2xvY2FsaG9zdC9p.bin'' \<mapsto> ''bytes of request 0''], [LOGO, LOGO])"
proof -
  have fail: "axios_get two_pages k u = None" for k u
    by (simp add: two_pages_def no_downloads_def)
  have a: "process_images demo two_pages home_url [''/img/logo''] [\<lparr>i_src = Some ''/img/logo''\<rparr>]
       Map.empty [] = ([\<lparr>i_src = Some ''/img/logo''\<rparr>], Map.empty, [LOGO])"
    by (simp add: process_one_image [OF URL2_logo(1)] logo_url_toString fail)
  have b: "process_images demo two_pages about_url [''/img/logo''] [\<lparr>i_src = Some ''/img/logo''\<rparr>]
       Map.empty [LOGO] = ([\<lparr>i_src = Some ''/img/logo''\<rparr>], Map.empty, [LOGO, LOGO])"
    by (simp add: process_one_image [OF URL2_logo(2)] logo_url_toString fail)
  have ne: "''/img/logo'' \<noteq> LOGO" by (simp add: LOGO_def)
  have c: "process_images demo logo_site home_url [''/img/logo'', LOGO]
       [\<lparr>i_src = Some ''/img/logo''\<rparr>, \<lparr>i_src = Some LOGO\<rparr>] Map.empty []
     = ([\<lparr>i_src = Some ''assets/aHR0cDovL2xvY2FsaG9zdC9p.bin''\<rparr>,
         \<lparr>i_src = Some ''assets/aHR0cDovL2xvY2FsaG9zdC9p.bin''\<rparr>],
        [''aHR0cDovL2xvY2FsaG9zdC9p.bin'' \<mapsto> ''bytes of request 1''], [LOGO, LOGO])"
    using ne
    by (simp add: process_images_def arrival_order_def in_order_def URL2_logo logo_url_toString
        assetFilename_LOGO logo_site_def numbered_bytes_def decimal.simps digit_char_def
        rewrite_src_def)
  have d: "process_images demo logo_site_reversed home_url [''/img/logo'', LOGO]
       [\<lparr>i_src = Some ''/img/logo''\<rparr>, \<lparr>i_src = Some LOGO\<rparr>] Map.empty []
     = ([\<lparr>i_src = Some ''assets/aHR0cDovL2xvY2FsaG9zdC9p.bin''\<rparr>,
         \<lparr>i_src = Some ''assets/aHR0cDovL2xvY2FsaG9zdC9p.bin''\<rparr>],
        [''aHR0cDovL2xvY2FsaG9zdC9p.bin'' \<mapsto> ''bytes of request 0''], [LOGO, LOGO])"
    using ne
    by (simp add: process_images_def arrival_order_def latest_first_def logo_site_reversed_def
        URL2_logo logo_url_toString
        assetFilename_LOGO logo_site_def numbered_bytes_def decimal.simps digit_char_def
        rewrite_src_def)
  from a b c d show ?thesis by simp
qed

end
